theory Spec2Isabelle
  imports Main "HOL-Library.Word"
begin

unbundle bit_operations_syntax

section \<open>Data model of \<open>buffer_manager.h\<close>\<close>

text \<open>
  \<open>uint64_t\<close> and \<open>size_t\<close> are \<open>64 word\<close>, \<open>uint16_t\<close> is \<open>16 word\<close>, \<open>char\<close> is
  \<open>8 word\<close>. The pin counter is an \<open>int64_t\<close>: it is kept as a \<open>64 word\<close> and read with
  \<open>sint\<close> (signed overflow is undefined in C++; the model wraps as two's complement does,
  which no run shorter than \<open>2 ^ 63\<close> operations can observe).
\<close>

type_synonym page_id = "64 word"
type_synonym byte = "8 word"

text \<open>
  What a call can end in besides a normal return: the \<open>buffer_full_error\<close> of the header,
  the \<open>std::out_of_range\<close> of \<open>std::map::at\<close>, undefined behaviour (erasing the end
  iterator, indexing a vector out of range, using a reference to no frame, locking a mutex
  the thread owns, unlocking a mutex the thread does not own), and \<open>would_block\<close>: the
  call is suspended in \<open>lock()\<close> or \<open>lock_shared()\<close> until another thread releases the
  mutex.
\<close>

datatype error = buffer_full_error | out_of_range | undefined_behaviour | would_block

subsection \<open>\<open>std::shared_mutex\<close>\<close>

text \<open>
  Every call is made by a thread. A \<open>std::shared_mutex\<close> is owned exclusively by one
  thread, or shared by some threads, or by none. As the C++ standard has it: \<open>lock\<close> and
  \<open>lock_shared\<close> by a thread that already owns the mutex in any mode, and \<open>unlock\<close>
  (\<open>unlock_shared\<close>) by a thread that does not own it exclusively (shared), are undefined
  behaviour; \<open>lock\<close> waits until nobody owns the mutex, \<open>lock_shared\<close> until nobody owns
  it exclusively.
\<close>

type_synonym tid = nat

datatype shared_mutex = Mutex (writer: "tid option") (readers: "tid list")

definition owns :: "tid \<Rightarrow> shared_mutex \<Rightarrow> bool" where
  "owns t m \<longleftrightarrow> writer m = Some t \<or> t \<in> set (readers m)"

definition mutex_lock :: "tid \<Rightarrow> shared_mutex \<Rightarrow> error + shared_mutex" where
  "mutex_lock t m =
     (if owns t m then Inl undefined_behaviour
      else if writer m = None \<and> readers m = [] then Inr (Mutex (Some t) [])
      else Inl would_block)"

definition mutex_lock_shared :: "tid \<Rightarrow> shared_mutex \<Rightarrow> error + shared_mutex" where
  "mutex_lock_shared t m =
     (if owns t m then Inl undefined_behaviour
      else if writer m = None then Inr (Mutex None (readers m @ [t]))
      else Inl would_block)"

definition mutex_unlock :: "tid \<Rightarrow> shared_mutex \<Rightarrow> error + shared_mutex" where
  "mutex_unlock t m =
     (if writer m = Some t then Inr (Mutex None (readers m)) else Inl undefined_behaviour)"

definition mutex_unlock_shared :: "tid \<Rightarrow> shared_mutex \<Rightarrow> error + shared_mutex" where
  "mutex_unlock_shared t m =
     (if t \<in> set (readers m) then Inr (Mutex (writer m) (remove1 t (readers m)))
      else Inl undefined_behaviour)"

subsection \<open>Frames, the I/O trace and the manager\<close>

text \<open>
  Every call of \<open>fix_page\<close> and \<open>unfix_page\<close> is one step on the state, made by one
  thread. The source serialises the calls on \<open>managerMutex\<close> and \<open>queueMutex\<close> as far as
  the map, the queues and the counters are concerned; these two mutexes are not modelled.
  \<open>pageMutex\<close> is: a \<open>lockPage\<close> that has to wait ends the step with \<open>would_block\<close>, the
  pool as the call has left it by then. The later completion of a suspended call is not
  modelled, and the lock and the disk read of a miss are part of the step that loads the
  page.

  \<open>class BufferFrame\<close>.
\<close>

record BufferFrame =
  pageId :: page_id
  pageSize :: "64 word"
  counter :: "64 word"
  mIsExclusive :: bool
  mIsDirty :: bool
  data :: "byte list"
  pageMutex :: shared_mutex

text \<open>
  Every call of \<open>BufferFrame::readDisk\<close> and \<open>BufferFrame::writeDisk\<close> is recorded together
  with the fields of the frame at the moment of the call.
\<close>

datatype io_event = ReadDisk BufferFrame | WriteDisk BufferFrame

text \<open>
  \<open>class BufferManager\<close>, together with the part of the world its methods touch.
  \<^item> \<open>pageSize_bm\<close>, \<open>pageCount\<close>, \<open>fifoQueue\<close>, \<open>lruQueue\<close>, \<open>bufferMapping\<close> are the
    fields of the class (\<open>pageSize_bm\<close> is \<open>BufferManager::pageSize\<close>). The
    \<open>std::map<uint64_t, BufferFrame*>\<close> is an association list kept in key order; a
    \<open>BufferFrame*\<close> is an index into \<open>heap\<close>.
  \<^item> \<open>heap\<close> holds every frame created by \<open>new BufferFrame\<close>, in creation order. No
    method but the destructor deletes a frame, so a frame dropped from the map stays
    reachable through the reference \<open>fix_page\<close> returned for it.
  \<^item> \<open>disk\<close> maps a segment id to the bytes of its segment file.
  \<^item> \<open>io_log\<close> is the trace of disk calls, oldest first.
\<close>

record BufferManager =
  pageSize_bm :: "64 word"
  pageCount :: "64 word"
  fifoQueue :: "page_id list"
  lruQueue :: "page_id list"
  bufferMapping :: "(page_id \<times> nat) list"
  heap :: "BufferFrame list"
  disk :: "16 word \<Rightarrow> byte list"
  io_log :: "io_event list"

section \<open>Page identifiers\<close>

definition get_segment_id :: "page_id \<Rightarrow> 16 word" where
  "get_segment_id page_id = ucast (drop_bit 48 page_id)"

definition get_segment_page_id :: "page_id \<Rightarrow> 64 word" where
  "get_segment_page_id page_id = page_id AND (push_bit 48 1 - 1)"

section \<open>Segment files\<close>

text \<open>
  Modelled from the spec: \<open>storage/file.h\<close> (class \<open>File\<close> with \<open>read_block\<close> and
  \<open>write_block\<close>) is not part of the sources. Following section 6 of the specification,
  \<open>read_block\<close> copies \<open>size\<close> bytes starting at \<open>offset\<close> and yields zero bytes for the
  range past the end of the file, and \<open>write_block\<close> stores \<open>size\<close> bytes at \<open>offset\<close>,
  extending the file (with zero bytes) where it is too short.
\<close>

definition read_block :: "byte list \<Rightarrow> nat \<Rightarrow> nat \<Rightarrow> byte list" where
  "read_block file offset len = take len (drop offset file @ replicate len 0)"

definition write_block :: "byte list \<Rightarrow> byte list \<Rightarrow> nat \<Rightarrow> nat \<Rightarrow> byte list" where
  "write_block file src offset len =
     take offset (file @ replicate (offset - length file) 0) @ take len src
       @ drop (offset + len) file"

section \<open>\<open>BufferFrame\<close>\<close>

definition BufferFrame_new :: "page_id \<Rightarrow> 64 word \<Rightarrow> BufferFrame" where
  "BufferFrame_new page_id page_size =
     \<lparr>pageId = page_id, pageSize = page_size, counter = 0, mIsExclusive = False,
      mIsDirty = False, data = replicate (unat page_size) 0, pageMutex = Mutex None []\<rparr>"

definition isDirty :: "BufferFrame \<Rightarrow> bool" where
  "isDirty f = mIsDirty f"

definition getCounter :: "BufferFrame \<Rightarrow> 64 word" where
  "getCounter f = counter f"

definition incCounter :: "BufferFrame \<Rightarrow> BufferFrame" where
  "incCounter f = f\<lparr>counter := counter f + 1\<rparr>"

definition decCounter :: "BufferFrame \<Rightarrow> BufferFrame" where
  "decCounter f = f\<lparr>counter := counter f - 1\<rparr>"

text \<open>
  \<open>lockPage\<close> and \<open>unlockPage\<close> are called by thread \<open>t\<close>. They return how the call ends
  and the frame as it is then: \<open>lockPage\<close> sets \<open>mIsExclusive\<close> only after it has got the
  mutex, \<open>unlockPage\<close> sets \<open>mIsDirty\<close> before it releases the mutex in the mode
  \<open>mIsExclusive\<close> names.
\<close>

definition lockPage :: "tid \<Rightarrow> bool \<Rightarrow> BufferFrame \<Rightarrow> (error + unit) \<times> BufferFrame" where
  "lockPage t exclusive f =
     (case (if exclusive then mutex_lock t (pageMutex f) else mutex_lock_shared t (pageMutex f)) of
        Inl e \<Rightarrow> (Inl e, f)
      | Inr m \<Rightarrow> (Inr (), f\<lparr>pageMutex := m, mIsExclusive := exclusive\<rparr>))"

definition unlockPage :: "tid \<Rightarrow> bool \<Rightarrow> BufferFrame \<Rightarrow> (error + unit) \<times> BufferFrame" where
  "unlockPage t is_dirty f =
     (let f1 = f\<lparr>mIsDirty := is_dirty\<rparr>
      in case (if mIsExclusive f1 then mutex_unlock t (pageMutex f1)
               else mutex_unlock_shared t (pageMutex f1)) of
           Inl e \<Rightarrow> (Inl e, f1)
         | Inr m \<Rightarrow> (Inr (), f1\<lparr>pageMutex := m\<rparr>))"

text \<open>
  \<open>on_frame p g s\<close> runs the method \<open>g\<close> on the frame \<open>p\<close> points to; \<open>call_frame\<close> does
  so for a method that can fail.
\<close>

definition on_frame :: "nat \<Rightarrow> (BufferFrame \<Rightarrow> BufferFrame) \<Rightarrow> BufferManager \<Rightarrow> BufferManager" where
  "on_frame p g s = s\<lparr>heap := (heap s)[p := g (heap s ! p)]\<rparr>"

definition call_frame ::
  "nat \<Rightarrow> (BufferFrame \<Rightarrow> (error + unit) \<times> BufferFrame) \<Rightarrow> BufferManager
     \<Rightarrow> (error + unit) \<times> BufferManager" where
  "call_frame p g s = (fst (g (heap s ! p)), on_frame p (\<lambda>f. snd (g f)) s)"

text \<open>The byte offset is a \<open>size_t\<close> product, so it wraps modulo \<open>2 ^ 64\<close>.\<close>

definition frame_offset :: "BufferFrame \<Rightarrow> nat" where
  "frame_offset f = unat (get_segment_page_id (pageId f) * pageSize f)"

definition readDisk :: "nat \<Rightarrow> BufferManager \<Rightarrow> BufferManager" where
  "readDisk p s =
     (let f = heap s ! p;
          file = disk s (get_segment_id (pageId f));
          bytes = read_block file (frame_offset f) (unat (pageSize f))
      in s\<lparr>heap := (heap s)[p := f\<lparr>data := bytes\<rparr>],
           io_log := io_log s @ [ReadDisk f]\<rparr>)"

definition writeDisk :: "nat \<Rightarrow> BufferManager \<Rightarrow> BufferManager" where
  "writeDisk p s =
     (let f = heap s ! p;
          seg = get_segment_id (pageId f);
          file = write_block (disk s seg) (data f) (frame_offset f) (unat (pageSize f))
      in s\<lparr>disk := (disk s)(seg := file),
           io_log := io_log s @ [WriteDisk f]\<rparr>)"

section \<open>\<open>BufferManager\<close>\<close>

subsection \<open>The \<open>std::map\<close> operations used\<close>

text \<open>
  \<open>find\<close> (and \<open>at\<close>, which throws where \<open>find\<close> returns \<open>end()\<close>), \<open>insert\<close>, which keeps
  an entry that is already there, and \<open>erase\<close> by key. The list stays sorted by key, the
  order in which the destructor walks the map.
\<close>

definition map_find :: "(page_id \<times> nat) list \<Rightarrow> page_id \<Rightarrow> nat option" where
  "map_find m k = map_of m k"

definition map_insert :: "page_id \<Rightarrow> nat \<Rightarrow> (page_id \<times> nat) list \<Rightarrow> (page_id \<times> nat) list" where
  "map_insert k p m = (if map_of m k = None then insort_key fst (k, p) m else m)"

definition map_erase :: "page_id \<Rightarrow> (page_id \<times> nat) list \<Rightarrow> (page_id \<times> nat) list" where
  "map_erase k m = filter (\<lambda>e. fst e \<noteq> k) m"

subsection \<open>Constructor and destructor\<close>

definition BufferManager_new :: "64 word \<Rightarrow> 64 word \<Rightarrow> (16 word \<Rightarrow> byte list) \<Rightarrow> BufferManager" where
  "BufferManager_new page_size page_count d =
     \<lparr>pageSize_bm = page_size, pageCount = page_count, fifoQueue = [], lruQueue = [],
      bufferMapping = [], heap = [], disk = d, io_log = []\<rparr>"

fun flush_entries :: "(page_id \<times> nat) list \<Rightarrow> BufferManager \<Rightarrow> BufferManager" where
  "flush_entries [] s = s"
| "flush_entries (entry # rest) s =
     flush_entries rest (if isDirty (heap s ! snd entry) then writeDisk (snd entry) s else s)"

definition BufferManager_delete :: "BufferManager \<Rightarrow> BufferManager" where
  "BufferManager_delete s = flush_entries (bufferMapping s) s"

subsection \<open>Victim selection\<close>

text \<open>
  The loop index is an \<open>int\<close> and the bound is \<open>static_cast<int>(queue.size())\<close>: the size
  is cut to 32 bits and read as two's complement (what C++20 prescribes and compilers did
  before). \<open>getPageIndexToRemove\<close> has the same loop twice, once per queue;
  \<open>scan_queue\<close> is this loop, entered at index \<open>i\<close>. The pointers stored in the map come
  from \<open>new\<close> and are never freed before the destructor runs, so \<open>tempPage\<close> always points
  to a frame.
\<close>

definition static_cast_int :: "nat \<Rightarrow> int" where
  "static_cast_int n = sint (word_of_nat n :: 32 word)"

function scan_queue :: "page_id list \<Rightarrow> int \<Rightarrow> BufferManager \<Rightarrow> (error + int) \<times> BufferManager" where
  "scan_queue q i s =
     (if i < static_cast_int (length q) then
        (case map_find (bufferMapping s) (q ! nat i) of
           None \<Rightarrow> (Inl out_of_range, s)
         | Some tempPage \<Rightarrow>
             if getCounter (heap s ! tempPage) \<noteq> 0 then scan_queue q (i + 1) s
             else (Inr i, writeDisk tempPage s))
      else (Inr (- 1), s))"
  by pat_completeness auto
termination
  by (relation "measure (\<lambda>(q, i, s). nat (static_cast_int (length q) - i))") auto

declare scan_queue.simps [simp del]

definition getPageIndexToRemove :: "bool \<Rightarrow> BufferManager \<Rightarrow> (error + int) \<times> BufferManager" where
  "getPageIndexToRemove isFifo s =
     (if isFifo then scan_queue (fifoQueue s) 0 s else scan_queue (lruQueue s) 0 s)"

subsection \<open>The three ways \<open>fix_page\<close> returns a frame\<close>

text \<open>
  \<open>erase_at\<close> is \<open>vector::erase(begin() + i)\<close>. Erasing the iterator \<open>std::find\<close> returns
  removes the first occurrence (\<open>remove1\<close>); erasing \<open>end()\<close>, dereferencing the \<open>end()\<close>
  of the map and indexing a queue out of range are undefined behaviour. The frames
  \<open>removePage\<close> drops from the map are not deleted.
\<close>

definition erase_at :: "nat \<Rightarrow> 'a list \<Rightarrow> 'a list" where
  "erase_at i xs = take i xs @ drop (Suc i) xs"

definition removePage ::
  "tid \<Rightarrow> page_id \<Rightarrow> int \<Rightarrow> bool \<Rightarrow> bool \<Rightarrow> BufferManager \<Rightarrow> (error + nat) \<times> BufferManager" where
  "removePage t page_id indexToRemove exclusive isFifo s =
     (let pFrame = length (heap s);
          s1 = s\<lparr>heap := heap s @ [BufferFrame_new page_id (pageSize_bm s)]\<rparr>;
          s2 = on_frame pFrame incCounter s1;
          q = (if isFifo then fifoQueue s2 else lruQueue s2)
      in if indexToRemove < 0 \<or> int (length q) \<le> indexToRemove
         then (Inl undefined_behaviour, s2)
         else
           let i = nat indexToRemove;
               m = map_insert page_id pFrame (map_erase (q ! i) (bufferMapping s2));
               s3 = (if isFifo
                     then s2\<lparr>bufferMapping := m,
                             fifoQueue := erase_at i (fifoQueue s2) @ [page_id]\<rparr>
                     else s2\<lparr>bufferMapping := m,
                             lruQueue := erase_at i (lruQueue s2),
                             fifoQueue := fifoQueue s2 @ [page_id]\<rparr>)
           in (case call_frame pFrame (lockPage t exclusive) s3 of
                 (Inl e, s4) \<Rightarrow> (Inl e, s4)
               | (Inr u, s4) \<Rightarrow> (Inr pFrame, readDisk pFrame s4)))"

definition updateExistingPage ::
  "tid \<Rightarrow> page_id \<Rightarrow> bool \<Rightarrow> BufferManager \<Rightarrow> (error + nat) \<times> BufferManager" where
  "updateExistingPage t page_id exclusive s =
     (case map_find (bufferMapping s) page_id of
        None \<Rightarrow> (Inl undefined_behaviour, s)
      | Some pFrame \<Rightarrow>
          let s1 = on_frame pFrame incCounter s
          in if page_id \<in> set (lruQueue s1) then
               let s2 = s1\<lparr>lruQueue := remove1 page_id (lruQueue s1) @ [page_id]\<rparr>
               in (case call_frame pFrame (lockPage t exclusive) s2 of
                     (Inl e, s3) \<Rightarrow> (Inl e, s3)
                   | (Inr u, s3) \<Rightarrow> (Inr pFrame, s3))
             else if page_id \<in> set (fifoQueue s1) then
               let s2 = s1\<lparr>fifoQueue := remove1 page_id (fifoQueue s1),
                           lruQueue := lruQueue s1 @ [page_id]\<rparr>
               in (case call_frame pFrame (lockPage t exclusive) s2 of
                     (Inl e, s3) \<Rightarrow> (Inl e, s3)
                   | (Inr u, s3) \<Rightarrow> (Inr pFrame, s3))
             else (Inl undefined_behaviour, s1))"

definition addNewPage ::
  "tid \<Rightarrow> page_id \<Rightarrow> bool \<Rightarrow> BufferManager \<Rightarrow> (error + nat) \<times> BufferManager" where
  "addNewPage t page_id exclusive s =
     (let pFrame = length (heap s);
          s1 = s\<lparr>heap := heap s @ [BufferFrame_new page_id (pageSize_bm s)]\<rparr>;
          s2 = on_frame pFrame incCounter s1;
          s3 = s2\<lparr>bufferMapping := map_insert page_id pFrame (bufferMapping s2),
                  fifoQueue := fifoQueue s2 @ [page_id]\<rparr>
      in (case call_frame pFrame (lockPage t exclusive) s3 of
            (Inl e, s4) \<Rightarrow> (Inl e, s4)
          | (Inr u, s4) \<Rightarrow> (Inr pFrame, readDisk pFrame s4)))"

subsection \<open>\<open>fix_page\<close> and \<open>unfix_page\<close>\<close>

definition fix_page ::
  "tid \<Rightarrow> page_id \<Rightarrow> bool \<Rightarrow> BufferManager \<Rightarrow> (error + nat) \<times> BufferManager" where
  "fix_page t page_id exclusive s =
     (let bufferContainsPage = (map_find (bufferMapping s) page_id \<noteq> None)
      in if bufferContainsPage then updateExistingPage t page_id exclusive s
         else
           let bufferIsFull = (word_of_nat (length (bufferMapping s)) = pageCount s)
           in if \<not> bufferIsFull then addNewPage t page_id exclusive s
              else
                (case getPageIndexToRemove True s of
                   (Inl e, s1) \<Rightarrow> (Inl e, s1)
                 | (Inr fifoToRemove, s1) \<Rightarrow>
                     if fifoToRemove \<noteq> - 1
                     then removePage t page_id fifoToRemove exclusive True s1
                     else
                       (case getPageIndexToRemove False s1 of
                          (Inl e, s2) \<Rightarrow> (Inl e, s2)
                        | (Inr lruToRemove, s2) \<Rightarrow>
                            if lruToRemove \<noteq> - 1
                            then removePage t page_id lruToRemove exclusive False s2
                            else (Inl buffer_full_error, s2))))"

text \<open>
  \<open>page\<close> is the reference handed in by the caller. A reference to a frame that was never
  created is undefined behaviour; every frame of \<open>heap\<close> was returned by some earlier
  \<open>fix_page\<close>. Where \<open>unlockPage\<close> runs into undefined behaviour, the counter has been
  decremented and the dirty flag set.
\<close>

definition unfix_page ::
  "tid \<Rightarrow> nat \<Rightarrow> bool \<Rightarrow> BufferManager \<Rightarrow> (error + unit) \<times> BufferManager" where
  "unfix_page t page is_dirty s =
     (if length (heap s) \<le> page then (Inl undefined_behaviour, s)
      else
        let s1 = on_frame page decCounter s
        in (case call_frame page (unlockPage t is_dirty) s1 of
              (Inl e, s2) \<Rightarrow> (Inl e, s2)
            | (Inr u, s2) \<Rightarrow>
                let pid = pageId (heap s2 ! page)
                in if pid \<notin> set (lruQueue s2) then (Inr (), s2)
                   else (Inr (), s2\<lparr>lruQueue := remove1 pid (lruQueue s2) @ [pid]\<rparr>)))"

definition get_fifo_list :: "BufferManager \<Rightarrow> page_id list" where
  "get_fifo_list s = fifoQueue s"

definition get_lru_list :: "BufferManager \<Rightarrow> page_id list" where
  "get_lru_list s = lruQueue s"

subsection \<open>Sequences of calls\<close>

text \<open>
  Threads issue \<open>fix_page\<close> and \<open>unfix_page\<close> calls, which the pool locks put one after
  the other; the frame reference of an \<open>Unfix\<close> is the index of the frame in \<open>heap\<close>, that
  is, the number of frames created before it. A \<open>buffer_full_error\<close> is an exception the
  caller catches, and a call that ends with \<open>would_block\<close> is suspended: in both cases the
  other calls go on with the pool as that call left it. \<open>run\<close> is \<open>None\<close> when a call runs
  into \<open>std::out_of_range\<close> or undefined behaviour.
\<close>

datatype call = Fix tid page_id bool | Unfix tid nat bool

definition exec :: "BufferManager \<Rightarrow> call \<Rightarrow> BufferManager option" where
  "exec s c =
     (case c of
        Fix t page_id exclusive \<Rightarrow>
          (case fix_page t page_id exclusive s of
             (Inr p, s') \<Rightarrow> Some s'
           | (Inl e, s') \<Rightarrow>
               if e = buffer_full_error \<or> e = would_block then Some s' else None)
      | Unfix t page is_dirty \<Rightarrow>
          (case unfix_page t page is_dirty s of
             (Inr u, s') \<Rightarrow> Some s'
           | (Inl e, s') \<Rightarrow> None))"

fun run :: "BufferManager \<Rightarrow> call list \<Rightarrow> BufferManager option" where
  "run s [] = Some s"
| "run s (c # cs) = (case exec s c of None \<Rightarrow> None | Some s' \<Rightarrow> run s' cs)"

section \<open>The pool invariant\<close>

text \<open>
  The map holds at most \<open>pageCount\<close> entries with pairwise different keys; no page id
  occurs twice in the two queues taken together; the queues hold exactly the keys of the
  map; and every entry of the map points to a frame of the heap that carries the entry's
  page id.
\<close>

definition pool_inv :: "BufferManager \<Rightarrow> bool" where
  "pool_inv s \<longleftrightarrow>
     length (bufferMapping s) \<le> unat (pageCount s) \<and>
     distinct (map fst (bufferMapping s)) \<and>
     distinct (fifoQueue s @ lruQueue s) \<and>
     set (fifoQueue s) \<union> set (lruQueue s) = fst ` set (bufferMapping s) \<and>
     (\<forall>e \<in> set (bufferMapping s). snd e < length (heap s) \<and> pageId (heap s ! snd e) = fst e)"

text \<open>The same condition on the components, with the frames reduced to their page ids.\<close>

definition inv_abs ::
  "64 word \<Rightarrow> (page_id \<times> nat) list \<Rightarrow> page_id list \<Rightarrow> page_id list \<Rightarrow> page_id list \<Rightarrow> bool" where
  "inv_abs pc m f l ids \<longleftrightarrow>
     length m \<le> unat pc \<and> distinct (map fst m) \<and> distinct (f @ l) \<and>
     set f \<union> set l = fst ` set m \<and>
     (\<forall>e \<in> set m. snd e < length ids \<and> ids ! snd e = fst e)"

section \<open>Locks and pins\<close>

text \<open>
  \<open>holds_lock t f\<close>: thread \<open>t\<close> owns the mutex of frame \<open>f\<close> in the mode the frame records,
  which is what \<open>unlockPage\<close> relies on. \<open>owners\<close> counts the threads that own a mutex.
  \<open>pins_inv n\<close>: every frame has at least as many pins as its mutex has owners, and at most
  \<open>n\<close>.
\<close>

definition holds_lock :: "tid \<Rightarrow> BufferFrame \<Rightarrow> bool" where
  "holds_lock t f \<longleftrightarrow>
     (if mIsExclusive f then writer (pageMutex f) = Some t else t \<in> set (readers (pageMutex f)))"



section \<open>Victim selection as the specification words it\<close>

text \<open>The pin count of the frame the map holds for a page id, if it holds one.\<close>

definition pin_count :: "BufferManager \<Rightarrow> page_id \<Rightarrow> int option" where
  "pin_count s k = map_option (\<lambda>p. sint (counter (heap s ! p))) (map_find (bufferMapping s) k)"

text \<open>
  ``Scan from the head and return the first id whose frame is unpinned'', and
  \<open>select_victim\<close>: the FIFO queue first, the LRU queue if the FIFO queue yields none.
\<close>

definition first_unpinned :: "BufferManager \<Rightarrow> page_id list \<Rightarrow> page_id option" where
  "first_unpinned s q = find (\<lambda>k. pin_count s k = Some 0) q"

definition select_victim :: "BufferManager \<Rightarrow> page_id option" where
  "select_victim s =
     (case first_unpinned s (fifoQueue s) of
        Some v \<Rightarrow> Some v
      | None \<Rightarrow> first_unpinned s (lruQueue s))"

section \<open>The frame of a page at the moment it is read from disk\<close>

text \<open>
  \<open>addNewPage\<close> and \<open>removePage\<close> create the frame, increment its counter and let the
  calling thread lock it before they call \<open>readDisk\<close> on it.
\<close>

definition loaded_frame :: "tid \<Rightarrow> page_id \<Rightarrow> bool \<Rightarrow> BufferManager \<Rightarrow> BufferFrame" where
  "loaded_frame t k x s =
     (BufferFrame_new k (pageSize_bm s))
       \<lparr>counter := 1, mIsExclusive := x,
        pageMutex := (if x then Mutex (Some t) [] else Mutex None [t])\<rparr>"

section \<open>A pool whose pages are all resident and unpinned\<close>

text \<open>Segment files that are all empty.\<close>

definition empty_disk :: "16 word \<Rightarrow> byte list" where
  "empty_disk seg = []"

text \<open>
  \<open>fix_unfix_each n\<close> lets thread 0 fix (shared) and unfix (clean) each of the pages
  \<open>0, \<dots>, n - 1\<close> once, in this order. \<open>unpinned_pool cap n\<close> is the state these calls
  lead to in a new pool of \<open>cap\<close> pages of size 0: the \<open>n\<close> pages are resident, all in the
  FIFO queue in the order of their loading, with pin count 0.
\<close>

fun fix_unfix_each :: "nat \<Rightarrow> call list" where
  "fix_unfix_each 0 = []"
| "fix_unfix_each (Suc n) = fix_unfix_each n @ [Fix 0 (word_of_nat n) False, Unfix 0 n False]"

definition unpinned_pool :: "nat \<Rightarrow> nat \<Rightarrow> BufferManager" where
  "unpinned_pool cap n =
     \<lparr>pageSize_bm = 0, pageCount = word_of_nat cap,
      fifoQueue = map word_of_nat [0..<n], lruQueue = [],
      bufferMapping = map (\<lambda>i. (word_of_nat i, i)) [0..<n],
      heap = map (\<lambda>i. BufferFrame_new (word_of_nat i) 0) [0..<n],
      disk = empty_disk,
      io_log = map (\<lambda>i. ReadDisk (loaded_frame 0 (word_of_nat i) False
                 (BufferManager_new 0 (word_of_nat cap) empty_disk))) [0..<n]\<rparr>"

section \<open>Scenarios and what is observed of a pool\<close>

text \<open>
  The concrete scenarios of the specification run on a pool of three pages of 16 bytes
  over segment files that are all empty.
\<close>

definition scenario :: "call list \<Rightarrow> BufferManager option" where
  "scenario cs = run (BufferManager_new 16 3 empty_disk) cs"


definition dirty_flags :: "BufferManager \<Rightarrow> bool list" where
  "dirty_flags s = map mIsDirty (heap s)"


fun written :: "io_event \<Rightarrow> BufferFrame option" where
  "written (WriteDisk f) = Some f"
| "written (ReadDisk f) = None"

definition written_pages :: "BufferManager \<Rightarrow> (page_id \<times> bool) list" where
  "written_pages s = map (\<lambda>f. (pageId f, mIsDirty f)) (List.map_filter written (io_log s))"



definition modes :: "BufferManager \<Rightarrow> bool list" where
  "modes s = map mIsExclusive (heap s)"

definition locks :: "BufferManager \<Rightarrow> shared_mutex list" where
  "locks s = map pageMutex (heap s)"


section \<open>Auxiliary facts\<close>

subsection \<open>The cast of a size to \<open>int\<close>\<close>


lemma static_cast_int_eq: "n < 2 ^ 31 \<Longrightarrow> static_cast_int n = int n"
proof -
  assume "n < 2 ^ 31"
  then have "int n < 2 ^ 31" by (metis of_nat_less_numeral_power_cancel_iff)
  moreover have "- (2 ^ 31) \<le> int n" by (rule order_trans [of _ 0]) simp_all
  ultimately have "signed_take_bit 31 (int n) = int n"
    by (simp add: signed_take_bit_int_eq_self)
  moreover have "(word_of_nat n :: 32 word) = word_of_int (int n)" by simp
  ultimately show ?thesis
    unfolding static_cast_int_def by (simp only: sint_sbintrunc') simp
qed

lemma static_cast_int_le: "static_cast_int n \<le> int n"
proof -
  have "- (2 ^ 31) \<le> int n" by (rule order_trans [of _ 0]) simp_all
  then have "signed_take_bit 31 (int n) \<le> int n"
    by (simp only: signed_take_bit_int_less_eq_self_iff)
  moreover have "(word_of_nat n :: 32 word) = word_of_int (int n)" by simp
  ultimately show ?thesis
    unfolding static_cast_int_def by (simp only: sint_sbintrunc') simp
qed

lemma on_frame_fields [simp]:
  "pageSize_bm (on_frame p g s) = pageSize_bm s"
  "pageCount (on_frame p g s) = pageCount s"
  "fifoQueue (on_frame p g s) = fifoQueue s"
  "lruQueue (on_frame p g s) = lruQueue s"
  "bufferMapping (on_frame p g s) = bufferMapping s"
  "disk (on_frame p g s) = disk s"
  "io_log (on_frame p g s) = io_log s"
  "heap (on_frame p g s) = (heap s)[p := g (heap s ! p)]"
  by (simp_all add: on_frame_def)

lemma readDisk_fields [simp]:
  "pageSize_bm (readDisk p s) = pageSize_bm s"
  "pageCount (readDisk p s) = pageCount s"
  "fifoQueue (readDisk p s) = fifoQueue s"
  "lruQueue (readDisk p s) = lruQueue s"
  "bufferMapping (readDisk p s) = bufferMapping s"
  "disk (readDisk p s) = disk s"
  "io_log (readDisk p s) = io_log s @ [ReadDisk (heap s ! p)]"
  "length (heap (readDisk p s)) = length (heap s)"
  by (simp_all add: readDisk_def Let_def)

lemma writeDisk_fields [simp]:
  "pageSize_bm (writeDisk p s) = pageSize_bm s"
  "pageCount (writeDisk p s) = pageCount s"
  "fifoQueue (writeDisk p s) = fifoQueue s"
  "lruQueue (writeDisk p s) = lruQueue s"
  "bufferMapping (writeDisk p s) = bufferMapping s"
  "heap (writeDisk p s) = heap s"
  "io_log (writeDisk p s) = io_log s @ [WriteDisk (heap s ! p)]"
  by (simp_all add: writeDisk_def Let_def)


subsection \<open>The map operations\<close>

lemma map_find_None: "map_find m k = None \<longleftrightarrow> k \<notin> fst ` set m"
  by (simp add: map_find_def map_of_eq_None_iff)

lemma map_find_Some: "distinct (map fst m) \<Longrightarrow> map_find m k = Some p \<longleftrightarrow> (k, p) \<in> set m"
  by (simp add: map_find_def)

lemma set_map_insert: "k \<notin> fst ` set m \<Longrightarrow> set (map_insert k p m) = insert (k, p) (set m)"
  by (simp add: map_insert_def map_of_eq_None_iff set_insort_key)

lemma length_map_insert: "k \<notin> fst ` set m \<Longrightarrow> length (map_insert k p m) = Suc (length m)"
  by (simp add: map_insert_def map_of_eq_None_iff)

lemma map_fst_insort: "map fst (insort_key fst e m) = insort (fst e) (map fst m)"
  by (induction m) simp_all

lemma distinct_map_insert: "distinct (map fst m) \<Longrightarrow> distinct (map fst (map_insert k p m))"
  by (simp add: map_insert_def map_fst_insort distinct_insort map_of_eq_None_iff)

lemma set_map_erase: "set (map_erase k m) = {e \<in> set m. fst e \<noteq> k}"
  by (simp add: map_erase_def)

lemma keys_map_erase: "fst ` set (map_erase k m) = fst ` set m - {k}"
  by (auto simp: map_erase_def)

lemma distinct_map_erase: "distinct (map fst m) \<Longrightarrow> distinct (map fst (map_erase k m))"
  by (simp add: map_erase_def distinct_map_filter)

lemma length_map_erase:
  "distinct (map fst m) \<Longrightarrow> k \<in> fst ` set m \<Longrightarrow> Suc (length (map_erase k m)) = length m"
proof (induction m)
  case Nil
  then show ?case by simp
next
  case (Cons e m)
  show ?case
  proof (cases "fst e = k")
    case True
    with Cons.prems have "k \<notin> fst ` set m" by auto
    then have "filter (\<lambda>e. fst e \<noteq> k) m = m" by (auto simp: filter_id_conv)
    with True show ?thesis by (simp add: map_erase_def)
  next
    case False
    with Cons show ?thesis by (auto simp: map_erase_def)
  qed
qed

lemma erase_at_remove1: "distinct xs \<Longrightarrow> i < length xs \<Longrightarrow> erase_at i xs = remove1 (xs ! i) xs"
proof (induction xs arbitrary: i)
  case Nil
  then show ?case by simp
next
  case (Cons x xs)
  then show ?case by (cases i) (auto simp: erase_at_def)
qed



lemma pool_inv_abs:
  "pool_inv s \<longleftrightarrow>
     inv_abs (pageCount s) (bufferMapping s) (fifoQueue s) (lruQueue s) (map pageId (heap s))"
  unfolding pool_inv_def inv_abs_def by auto

lemma ids_list_update:
  assumes "pageId f = pageId (h ! p)"
  shows "map pageId (h[p := f]) = map pageId h"
proof (cases "p < length h")
  case True
  with assms show ?thesis by (simp add: map_update list_update_same_conv)
next
  case False
  then have "length h \<le> p" by simp
  then show ?thesis by (simp only: list_update_beyond)
qed

lemma inv_abs_touch:
  assumes "inv_abs pc m f l ids" "x \<in> set l"
  shows "inv_abs pc m f (remove1 x l @ [x]) ids"
proof -
  have d: "distinct (f @ l)" and u: "set f \<union> set l = fst ` set m"
    using assms(1) by (simp_all add: inv_abs_def)
  from d assms(2) have "distinct (f @ remove1 x l @ [x])" by auto
  moreover from d assms(2) have "set f \<union> set (remove1 x l @ [x]) = set f \<union> set l"
    by auto
  ultimately show ?thesis using assms(1) u unfolding inv_abs_def by metis
qed

lemma inv_abs_promote:
  assumes "inv_abs pc m f l ids" "x \<in> set f"
  shows "inv_abs pc m (remove1 x f) (l @ [x]) ids"
proof -
  have d: "distinct (f @ l)" and u: "set f \<union> set l = fst ` set m"
    using assms(1) by (simp_all add: inv_abs_def)
  from d assms(2) have "distinct (remove1 x f @ l @ [x])" by auto
  moreover from d assms(2) have "set (remove1 x f) \<union> set (l @ [x]) = set f \<union> set l"
    by auto
  ultimately show ?thesis using assms(1) u unfolding inv_abs_def by metis
qed

lemma inv_abs_add:
  assumes "distinct (map fst m)" "distinct (f @ l)" "set f \<union> set l = fst ` set m"
    "\<forall>e \<in> set m. snd e < length ids \<and> ids ! snd e = fst e"
    "k \<notin> fst ` set m" "length m < unat pc"
  shows "inv_abs pc (map_insert k (length ids) m) (f @ [k]) l (ids @ [k])"
proof -
  have "length (map_insert k (length ids) m) \<le> unat pc"
    using assms(5,6) by (simp add: length_map_insert)
  moreover have "distinct (map fst (map_insert k (length ids) m))"
    using assms(1) by (rule distinct_map_insert)
  moreover have "distinct ((f @ [k]) @ l)"
    using assms(2,3,5) by auto
  moreover have "set (f @ [k]) \<union> set l = fst ` set (map_insert k (length ids) m)"
    using assms(3,5) by (simp add: set_map_insert)
  moreover have "\<forall>e \<in> set (map_insert k (length ids) m).
      snd e < length (ids @ [k]) \<and> (ids @ [k]) ! snd e = fst e"
    using assms(4,5) by (auto simp: set_map_insert nth_append)
  ultimately show ?thesis unfolding inv_abs_def by blast
qed

lemma inv_abs_add_free:
  assumes "inv_abs pc m f l ids" "k \<notin> fst ` set m" "word_of_nat (length m) \<noteq> pc"
  shows "inv_abs pc (map_insert k (length ids) m) (f @ [k]) l (ids @ [k])"
proof -
  have "length m \<noteq> unat pc" using assms(3) by auto
  with assms(1) have "length m < unat pc" by (simp add: inv_abs_def)
  with assms(1,2) show ?thesis by (intro inv_abs_add) (simp_all add: inv_abs_def)
qed

lemma inv_abs_evict_fifo:
  assumes "inv_abs pc m f l ids" "i < length f" "k \<notin> fst ` set m"
  shows "inv_abs pc (map_insert k (length ids) (map_erase (f ! i) m))
           (erase_at i f @ [k]) l (ids @ [k])"
proof -
  let ?v = "f ! i"
  have d: "distinct f" and dm: "distinct (map fst m)" using assms(1) by (simp_all add: inv_abs_def)
  have e: "erase_at i f = remove1 ?v f" using d assms(2) by (rule erase_at_remove1)
  have v: "?v \<in> fst ` set m" using assms(1,2) unfolding inv_abs_def by (metis UnI1 nth_mem)
  have "Suc (length (map_erase ?v m)) = length m" using dm v by (rule length_map_erase)
  then have "length (map_erase ?v m) < unat pc" using assms(1) by (simp add: inv_abs_def)
  moreover have "distinct (map fst (map_erase ?v m))" using dm by (rule distinct_map_erase)
  moreover have "distinct (remove1 ?v f @ l)" using assms(1) by (auto simp: inv_abs_def)
  moreover have "set (remove1 ?v f) \<union> set l = fst ` set (map_erase ?v m)"
    using assms(1) nth_mem [OF assms(2)] by (auto simp: inv_abs_def keys_map_erase)
  moreover have "\<forall>e \<in> set (map_erase ?v m). snd e < length ids \<and> ids ! snd e = fst e"
    using assms(1) by (simp add: inv_abs_def set_map_erase)
  moreover have "k \<notin> fst ` set (map_erase ?v m)" using assms(3) by (simp add: keys_map_erase)
  ultimately show ?thesis unfolding e by (intro inv_abs_add)
qed

lemma inv_abs_evict_lru:
  assumes "inv_abs pc m f l ids" "i < length l" "k \<notin> fst ` set m"
  shows "inv_abs pc (map_insert k (length ids) (map_erase (l ! i) m))
           (f @ [k]) (erase_at i l) (ids @ [k])"
proof -
  let ?v = "l ! i"
  have d: "distinct l" and dm: "distinct (map fst m)" using assms(1) by (simp_all add: inv_abs_def)
  have e: "erase_at i l = remove1 ?v l" using d assms(2) by (rule erase_at_remove1)
  have v: "?v \<in> fst ` set m" using assms(1,2) unfolding inv_abs_def by (metis UnI2 nth_mem)
  have "Suc (length (map_erase ?v m)) = length m" using dm v by (rule length_map_erase)
  then have "length (map_erase ?v m) < unat pc" using assms(1) by (simp add: inv_abs_def)
  moreover have "distinct (map fst (map_erase ?v m))" using dm by (rule distinct_map_erase)
  moreover have "distinct (f @ remove1 ?v l)" using assms(1) by (auto simp: inv_abs_def)
  moreover have "set f \<union> set (remove1 ?v l) = fst ` set (map_erase ?v m)"
    using assms(1) nth_mem [OF assms(2)] by (auto simp: inv_abs_def keys_map_erase)
  moreover have "\<forall>e \<in> set (map_erase ?v m). snd e < length ids \<and> ids ! snd e = fst e"
    using assms(1) by (simp add: inv_abs_def set_map_erase)
  moreover have "k \<notin> fst ` set (map_erase ?v m)" using assms(3) by (simp add: keys_map_erase)
  ultimately show ?thesis unfolding e by (intro inv_abs_add)
qed

lemma inv_abs_grow:
  "inv_abs pc m f l ids \<Longrightarrow> inv_abs pc m f l (ids @ [k])"
  by (auto simp: inv_abs_def nth_append)


subsection \<open>Frames keep their page id\<close>

lemma pageId_methods [simp]:
  "pageId (incCounter f) = pageId f"
  "pageId (decCounter f) = pageId f"
  "pageId (snd (lockPage t x f)) = pageId f"
  "pageId (snd (unlockPage t x f)) = pageId f"
  "pageId (BufferFrame_new k ps) = k"
  by (simp_all add: incCounter_def decCounter_def lockPage_def unlockPage_def BufferFrame_new_def
      Let_def split: sum.splits)

lemma call_frame_simps [simp]:
  "fst (call_frame p g s) = fst (g (heap s ! p))"
  "snd (call_frame p g s) = on_frame p (\<lambda>f. snd (g f)) s"
  by (simp_all add: call_frame_def)

lemma case_call_frame:
  "(case call_frame p g s of (Inl e, s') \<Rightarrow> A e s' | (Inr u, s') \<Rightarrow> B u s') =
   (case fst (g (heap s ! p)) of
      Inl e \<Rightarrow> A e (on_frame p (\<lambda>f. snd (g f)) s)
    | Inr u \<Rightarrow> B u (on_frame p (\<lambda>f. snd (g f)) s))"
  by (simp add: call_frame_def split: sum.splits)

lemma lockPage_fresh:
  "lockPage t x (incCounter (BufferFrame_new k ps)) =
     (Inr (), (BufferFrame_new k ps)
        \<lparr>counter := 1, mIsExclusive := x,
         pageMutex := (if x then Mutex (Some t) [] else Mutex None [t])\<rparr>)"
  by (simp add: lockPage_def incCounter_def BufferFrame_new_def mutex_lock_def
      mutex_lock_shared_def owns_def)

lemma pageId_nth_update:
  assumes "pageId f = pageId (h ! p)"
  shows "pageId (h[p := f] ! q) = pageId (h ! q)"
proof (cases "p < length h")
  case True
  with assms show ?thesis by (cases "p = q") simp_all
next
  case False
  then have "length h \<le> p" by simp
  then show ?thesis by (simp only: list_update_beyond)
qed

lemma ids_readDisk [simp]: "map pageId (heap (readDisk p s)) = map pageId (heap s)"
  by (simp add: readDisk_def Let_def ids_list_update)

lemma pool_inv_io [simp]: "pool_inv (writeDisk p s) = pool_inv s"
  by (simp add: pool_inv_abs)

subsection \<open>The scan\<close>

lemma scan_queue_shape:
  assumes "0 \<le> i" "scan_queue q i s = (r, s')"
  shows "(s' = s \<and> (r = Inr (- 1) \<or> r = Inl out_of_range)) \<or>
         (\<exists>j p. r = Inr j \<and> 0 \<le> j \<and> nat j < length q \<and>
            map_find (bufferMapping s) (q ! nat j) = Some p \<and>
            counter (heap s ! p) = 0 \<and> s' = writeDisk p s)"
  using assms
proof (induction q i s rule: scan_queue.induct)
  case (1 q i s)
  show ?case
  proof (cases "i < static_cast_int (length q)")
    case False
    with "1.prems" show ?thesis by (simp add: scan_queue.simps)
  next
    case True
    have le: "static_cast_int (length q) \<le> int (length q)" by (rule static_cast_int_le)
    with True "1.prems"(1) have inb: "nat i < length q" by linarith
    show ?thesis
    proof (cases "map_find (bufferMapping s) (q ! nat i)")
      case None
      with True "1.prems" show ?thesis by (simp add: scan_queue.simps)
    next
      case (Some p)
      show ?thesis
      proof (cases "counter (heap s ! p) = 0")
        case z: True
        with True Some "1.prems" inb show ?thesis
          by (auto simp: scan_queue.simps [of q i s] getCounter_def)
      next
        case nz: False
        with True Some "1.prems" have "scan_queue q (i + 1) s = (r, s')"
          by (simp add: scan_queue.simps [of q i s] getCounter_def)
        moreover have "0 \<le> i + 1" using "1.prems"(1) by simp
        ultimately show ?thesis
          using "1.IH" [OF True Some] nz by (simp add: getCounter_def)
      qed
    qed
  qed
qed

lemma getPageIndexToRemove_shape:
  assumes "getPageIndexToRemove isFifo s = (r, s')"
  shows "(s' = s \<and> (r = Inr (- 1) \<or> r = Inl out_of_range)) \<or>
         (\<exists>j p. r = Inr j \<and> 0 \<le> j \<and>
            nat j < length (if isFifo then fifoQueue s else lruQueue s) \<and>
            map_find (bufferMapping s) ((if isFifo then fifoQueue s else lruQueue s) ! nat j) = Some p \<and>
            counter (heap s ! p) = 0 \<and> s' = writeDisk p s)"
proof (cases isFifo)
  case True
  with assms have "scan_queue (fifoQueue s) 0 s = (r, s')" by (simp add: getPageIndexToRemove_def)
  from scan_queue_shape [OF _ this] True show ?thesis by simp
next
  case False
  with assms have "scan_queue (lruQueue s) 0 s = (r, s')" by (simp add: getPageIndexToRemove_def)
  from scan_queue_shape [OF _ this] False show ?thesis by simp
qed

subsection \<open>The invariant is kept\<close>

lemma pool_inv_unfix_page: "pool_inv s \<Longrightarrow> pool_inv (snd (unfix_page t p d s))"
  by (auto simp: unfix_page_def Let_def pool_inv_abs ids_list_update pageId_nth_update
      case_call_frame intro: inv_abs_touch split: sum.splits)

lemma pool_inv_updateExistingPage:
  "pool_inv s \<Longrightarrow> pool_inv (snd (updateExistingPage t k x s))"
  by (auto simp: updateExistingPage_def Let_def pool_inv_abs ids_list_update pageId_nth_update
      case_call_frame intro: inv_abs_touch inv_abs_promote split: option.splits sum.splits)

lemma pageId_loaded_frame [simp]: "pageId (loaded_frame t k x s) = k"
  by (simp add: loaded_frame_def BufferFrame_new_def)

lemma loaded_frame_io [simp]: "loaded_frame t k x (writeDisk p s) = loaded_frame t k x s"
  by (simp add: loaded_frame_def)

text \<open>The lock of a new frame is free, so \<open>lockPage\<close> returns at once on the miss paths.\<close>

lemma addNewPage_result:
  shows "fst (addNewPage t k x s) = Inr (length (heap s))"
    and "heap (snd (addNewPage t k x s)) =
           heap s @ [(loaded_frame t k x s)
             \<lparr>data := read_block (disk s (get_segment_id k))
                        (frame_offset (loaded_frame t k x s)) (unat (pageSize_bm s))\<rparr>]"
    and "bufferMapping (snd (addNewPage t k x s)) =
           map_insert k (length (heap s)) (bufferMapping s)"
    and "fifoQueue (snd (addNewPage t k x s)) = fifoQueue s @ [k]"
    and "lruQueue (snd (addNewPage t k x s)) = lruQueue s"
    and "disk (snd (addNewPage t k x s)) = disk s"
    and "io_log (snd (addNewPage t k x s)) = io_log s @ [ReadDisk (loaded_frame t k x s)]"
    and "pageCount (snd (addNewPage t k x s)) = pageCount s"
    and "pageSize_bm (snd (addNewPage t k x s)) = pageSize_bm s"
  by (simp_all add: addNewPage_def Let_def call_frame_def on_frame_def lockPage_def
      incCounter_def mutex_lock_def mutex_lock_shared_def owns_def
      loaded_frame_def list_update_append readDisk_def BufferFrame_new_def frame_offset_def)

lemma addNewPage_pair:
  "addNewPage t k x s = (Inr (length (heap s)), snd (addNewPage t k x s))"
  by (simp add: prod_eq_iff addNewPage_result)

lemma removePage_queues:
  assumes "i < length (if b then fifoQueue s else lruQueue s)"
  shows "fst (removePage t k (int i) x b s) = Inr (length (heap s))"
    and "heap (snd (removePage t k (int i) x b s)) =
           heap s @ [(loaded_frame t k x s)
             \<lparr>data := read_block (disk s (get_segment_id k))
                        (frame_offset (loaded_frame t k x s)) (unat (pageSize_bm s))\<rparr>]"
    and "bufferMapping (snd (removePage t k (int i) x b s)) =
           map_insert k (length (heap s))
             (map_erase ((if b then fifoQueue s else lruQueue s) ! i) (bufferMapping s))"
    and "fifoQueue (snd (removePage t k (int i) x b s)) =
           (if b then erase_at i (fifoQueue s) @ [k] else fifoQueue s @ [k])"
    and "lruQueue (snd (removePage t k (int i) x b s)) =
           (if b then lruQueue s else erase_at i (lruQueue s))"
    and "disk (snd (removePage t k (int i) x b s)) = disk s"
    and "io_log (snd (removePage t k (int i) x b s)) =
           io_log s @ [ReadDisk (loaded_frame t k x s)]"
    and "pageCount (snd (removePage t k (int i) x b s)) = pageCount s"
    and "pageSize_bm (snd (removePage t k (int i) x b s)) = pageSize_bm s"
  using assms
  by (cases b; simp add: removePage_def Let_def call_frame_def on_frame_def lockPage_def
      incCounter_def mutex_lock_def mutex_lock_shared_def owns_def
      loaded_frame_def list_update_append readDisk_def BufferFrame_new_def frame_offset_def)+

lemmas removePage_fifo = removePage_queues [where b = True, simplified]

lemmas removePage_lru = removePage_queues [where b = False, simplified]

lemma removePage_bad_index:
  assumes "i < 0 \<or> int (length (if b then fifoQueue s else lruQueue s)) \<le> i"
  shows "removePage t k i x b s =
     (Inl undefined_behaviour,
      s\<lparr>heap := heap s @ [incCounter (BufferFrame_new k (pageSize_bm s))]\<rparr>)"
  using assms
  by (cases b) (auto simp: removePage_def Let_def on_frame_def list_update_append)

lemma pool_inv_addNewPage:
  assumes "pool_inv s" "map_find (bufferMapping s) k = None"
    "word_of_nat (length (bufferMapping s)) \<noteq> pageCount s"
  shows "pool_inv (snd (addNewPage t k x s))"
proof -
  have "k \<notin> fst ` set (bufferMapping s)" using assms(2) by (simp add: map_find_None)
  from inv_abs_add_free [OF assms(1) [unfolded pool_inv_abs] this assms(3)]
  show ?thesis
    by (simp add: addNewPage_result pool_inv_abs)
qed

lemma pool_inv_removePage:
  assumes "pool_inv s" "map_find (bufferMapping s) k = None"
  shows "pool_inv (snd (removePage t k i x isFifo s))"
proof -
  have k: "k \<notin> fst ` set (bufferMapping s)" using assms(2) by (simp add: map_find_None)
  note a = assms(1) [unfolded pool_inv_abs]
  let ?q = "if isFifo then fifoQueue s else lruQueue s"
  show ?thesis
  proof (cases "i < 0 \<or> int (length ?q) \<le> i")
    case True
    from inv_abs_grow [OF a, of k] show ?thesis
      by (simp add: removePage_bad_index [OF True] pool_inv_abs)
  next
    case False
    then have "0 \<le> i" and lt: "i < int (length ?q)" by linarith+
    then obtain j where i: "i = int j" by (auto elim: nonneg_int_cases)
    with lt have n: "j < length ?q" by simp
    show ?thesis
    proof (cases isFifo)
      case True
      with n have f: "j < length (fifoQueue s)" by simp
      from inv_abs_evict_fifo [OF a f k] True show ?thesis
        unfolding i by (simp add: removePage_fifo [OF f] pool_inv_abs)
    next
      case nf: False
      with n have l: "j < length (lruQueue s)" by simp
      from inv_abs_evict_lru [OF a l k] nf show ?thesis
        unfolding i by (simp add: removePage_lru [OF l] pool_inv_abs)
    qed
  qed
qed

lemma pool_inv_fix_page:
  assumes "pool_inv s"
  shows "pool_inv (snd (fix_page t k x s))"
proof (cases "map_find (bufferMapping s) k = None")
  case False
  with pool_inv_updateExistingPage [OF assms, of t k x] show ?thesis
    by (simp add: fix_page_def)
next
  case miss: True
  show ?thesis
  proof (cases "word_of_nat (length (bufferMapping s)) = pageCount s")
    case False
    with pool_inv_addNewPage [OF assms miss False, of t x] miss show ?thesis
      by (simp add: fix_page_def)
  next
    case full: True
    obtain r1 s1 where g1: "getPageIndexToRemove True s = (r1, s1)" by (cases "getPageIndexToRemove True s")
    from getPageIndexToRemove_shape [OF g1]
    have s1: "pool_inv s1 \<and> map_find (bufferMapping s1) k = None"
      using assms miss by auto
    obtain r2 s2 where g2: "getPageIndexToRemove False s1 = (r2, s2)" by (cases "getPageIndexToRemove False s1")
    from getPageIndexToRemove_shape [OF g2]
    have s2: "pool_inv s2 \<and> map_find (bufferMapping s2) k = None"
      using s1 by auto
    from s1 s2 pool_inv_removePage show ?thesis
      using miss full g1 g2 by (auto simp: fix_page_def split: sum.splits)
  qed
qed

subsection \<open>Runs\<close>

lemma pool_inv_new: "pool_inv (BufferManager_new ps pc d)"
  by (simp add: pool_inv_def BufferManager_new_def)

lemma pool_inv_exec: "pool_inv s \<Longrightarrow> exec s c = Some s' \<Longrightarrow> pool_inv s'"
proof (cases c)
  case (Fix t k x)
  assume "pool_inv s" "exec s c = Some s'"
  with Fix pool_inv_fix_page [of s t k x] show ?thesis
    by (auto simp: exec_def split: prod.splits sum.splits if_splits)
next
  case (Unfix t p d)
  assume "pool_inv s" "exec s c = Some s'"
  with Unfix pool_inv_unfix_page [of s t p d] show ?thesis
    by (auto simp: exec_def split: prod.splits sum.splits)
qed

lemma pool_inv_run: "pool_inv s \<Longrightarrow> run s cs = Some s' \<Longrightarrow> pool_inv s'"
proof (induction cs arbitrary: s)
  case Nil
  then show ?case by simp
next
  case (Cons c cs)
  then show ?case by (auto split: option.splits dest: pool_inv_exec)
qed









subsection \<open>The scan finds the first unpinned page\<close>

lemma pin_count_zero:
  "pin_count s k = Some 0 \<longleftrightarrow> (\<exists>p. map_find (bufferMapping s) k = Some p \<and> counter (heap s ! p) = 0)"
  by (cases "map_find (bufferMapping s) k") (simp_all add: pin_count_def signed_eq_0_iff)

lemma scan_queue_first:
  assumes "set q \<subseteq> fst ` set (bufferMapping s)" "length q < 2 ^ 31" "i \<le> length q"
  shows "case find (\<lambda>k. pin_count s k = Some 0) (drop i q) of
           None \<Rightarrow> scan_queue q (int i) s = (Inr (- 1), s)
         | Some v \<Rightarrow> \<exists>j p. i \<le> j \<and> j < length q \<and> q ! j = v \<and>
             (\<forall>l. i \<le> l \<and> l < j \<longrightarrow> pin_count s (q ! l) \<noteq> Some 0) \<and>
             map_find (bufferMapping s) v = Some p \<and> counter (heap s ! p) = 0 \<and>
             scan_queue q (int i) s = (Inr (int j), writeDisk p s)"
  using assms(3)
proof (induction "length q - i" arbitrary: i)
  case 0
  then have "i = length q" by simp
  then show ?case
    by (simp add: scan_queue.simps [of q "int (length q)" s] static_cast_int_eq [OF assms(2)])
next
  case (Suc n)
  then have i: "i < length q" by simp
  have c: "static_cast_int (length q) = int (length q)" by (rule static_cast_int_eq [OF assms(2)])
  have d: "drop i q = q ! i # drop (Suc i) q" using i by (simp add: Cons_nth_drop_Suc)
  from i assms(1) have "q ! i \<in> fst ` set (bufferMapping s)" using nth_mem by blast
  then obtain p where p: "map_find (bufferMapping s) (q ! i) = Some p"
    using map_find_None [of "bufferMapping s" "q ! i"] by (cases "map_find (bufferMapping s) (q ! i)") auto
  show ?case
  proof (cases "counter (heap s ! p) = 0")
    case True
    then have "pin_count s (q ! i) = Some 0" using p by (simp add: pin_count_zero)
    moreover have "scan_queue q (int i) s = (Inr (int i), writeDisk p s)"
      using i c p True by (simp add: scan_queue.simps [of q "int i" s] getCounter_def)
    ultimately show ?thesis using d i p True by auto
  next
    case False
    then have np: "pin_count s (q ! i) \<noteq> Some 0" using p by (simp add: pin_count_zero)
    have sc: "scan_queue q (int i) s = scan_queue q (int (Suc i)) s"
      using i c p False by (simp add: scan_queue.simps [of q "int i" s] getCounter_def add.commute)
    have "n = length q - Suc i" using Suc.hyps(2) by simp
    moreover have "Suc i \<le> length q" using i by simp
    ultimately have IH: "case find (\<lambda>k. pin_count s k = Some 0) (drop (Suc i) q) of
           None \<Rightarrow> scan_queue q (int (Suc i)) s = (Inr (- 1), s)
         | Some v \<Rightarrow> \<exists>j p. Suc i \<le> j \<and> j < length q \<and> q ! j = v \<and>
             (\<forall>l. Suc i \<le> l \<and> l < j \<longrightarrow> pin_count s (q ! l) \<noteq> Some 0) \<and>
             map_find (bufferMapping s) v = Some p \<and> counter (heap s ! p) = 0 \<and>
             scan_queue q (int (Suc i)) s = (Inr (int j), writeDisk p s)"
      by (rule Suc.hyps(1))
    show ?thesis
    proof (cases "find (\<lambda>k. pin_count s k = Some 0) (drop (Suc i) q)")
      case None
      with IH np d sc show ?thesis by simp
    next
      case (Some v)
      with IH obtain j p' where j: "Suc i \<le> j" "j < length q" "q ! j = v"
        "\<forall>l. Suc i \<le> l \<and> l < j \<longrightarrow> pin_count s (q ! l) \<noteq> Some 0"
        "map_find (bufferMapping s) v = Some p'" "counter (heap s ! p') = 0"
        "scan_queue q (int (Suc i)) s = (Inr (int j), writeDisk p' s)" by auto
      have "\<forall>l. i \<le> l \<and> l < j \<longrightarrow> pin_count s (q ! l) \<noteq> Some 0"
      proof (intro allI impI)
        fix l assume "i \<le> l \<and> l < j"
        then consider "l = i" | "Suc i \<le> l \<and> l < j" by linarith
        then show "pin_count s (q ! l) \<noteq> Some 0" using np j(4) by cases auto
      qed
      with j sc have "\<exists>j p. i \<le> j \<and> j < length q \<and> q ! j = v \<and>
             (\<forall>l. i \<le> l \<and> l < j \<longrightarrow> pin_count s (q ! l) \<noteq> Some 0) \<and>
             map_find (bufferMapping s) v = Some p \<and> counter (heap s ! p) = 0 \<and>
             scan_queue q (int i) s = (Inr (int j), writeDisk p s)"
        by (metis Suc_leD)
      with Some np d show ?thesis by simp
    qed
  qed
qed


lemma getPageIndexToRemove_fifo:
  assumes "set (fifoQueue s) \<subseteq> fst ` set (bufferMapping s)" "length (fifoQueue s) < 2 ^ 31"
  shows "case first_unpinned s (fifoQueue s) of
           None \<Rightarrow> getPageIndexToRemove True s = (Inr (- 1), s)
         | Some v \<Rightarrow> \<exists>i p. getPageIndexToRemove True s = (Inr (int i), writeDisk p s) \<and>
             i < length (fifoQueue s) \<and> fifoQueue s ! i = v \<and>
             (\<forall>j<i. pin_count s (fifoQueue s ! j) \<noteq> Some 0) \<and>
             map_find (bufferMapping s) v = Some p \<and> pin_count s v = Some 0"
proof -
  have g: "getPageIndexToRemove True s = scan_queue (fifoQueue s) (int 0) s"
    by (simp add: getPageIndexToRemove_def)
  from scan_queue_first [OF assms, of 0] show ?thesis
    unfolding first_unpinned_def g
    by (auto simp: pin_count_zero split: option.splits)
qed

lemma getPageIndexToRemove_lru:
  assumes "set (lruQueue s) \<subseteq> fst ` set (bufferMapping s)" "length (lruQueue s) < 2 ^ 31"
  shows "case first_unpinned s (lruQueue s) of
           None \<Rightarrow> getPageIndexToRemove False s = (Inr (- 1), s)
         | Some v \<Rightarrow> \<exists>i p. getPageIndexToRemove False s = (Inr (int i), writeDisk p s) \<and>
             i < length (lruQueue s) \<and> lruQueue s ! i = v \<and>
             (\<forall>j<i. pin_count s (lruQueue s ! j) \<noteq> Some 0) \<and>
             map_find (bufferMapping s) v = Some p \<and> pin_count s v = Some 0"
proof -
  have g: "getPageIndexToRemove False s = scan_queue (lruQueue s) (int 0) s"
    by (simp add: getPageIndexToRemove_def)
  from scan_queue_first [OF assms, of 0] show ?thesis
    unfolding first_unpinned_def g
    by (auto simp: pin_count_zero split: option.splits)
qed

lemma queue_lengths:
  assumes "pool_inv s"
  shows "length (fifoQueue s) + length (lruQueue s) = length (bufferMapping s)"
proof -
  have d: "distinct (fifoQueue s @ lruQueue s)" "distinct (map fst (bufferMapping s))"
    and u: "set (fifoQueue s @ lruQueue s) = set (map fst (bufferMapping s))"
    using assms by (simp_all add: pool_inv_def)
  have "length (fifoQueue s @ lruQueue s) = card (set (fifoQueue s @ lruQueue s))"
    using d(1) by (simp only: distinct_card)
  also have "\<dots> = card (set (map fst (bufferMapping s)))" by (simp only: u)
  also have "\<dots> = length (map fst (bufferMapping s))" using d(2) by (simp only: distinct_card)
  finally show ?thesis by simp
qed

lemma removePage_result:
  assumes "pool_inv s" "map_find (bufferMapping s) k = None"
    "i < length (if b then fifoQueue s else lruQueue s)"
  shows "fst (removePage t k (int i) x b s) = Inr (length (heap s))"
    and "fst ` set (bufferMapping (snd (removePage t k (int i) x b s))) =
           insert k (fst ` set (bufferMapping s) - {(if b then fifoQueue s else lruQueue s) ! i})"
proof -
  from assms(3) show "fst (removePage t k (int i) x b s) = Inr (length (heap s))"
    by (rule removePage_queues)
  have k: "k \<notin> fst ` set (map_erase v (bufferMapping s))" for v
    using assms(2) by (simp add: map_find_None keys_map_erase)
  show "fst ` set (bufferMapping (snd (removePage t k (int i) x b s))) =
           insert k (fst ` set (bufferMapping s) - {(if b then fifoQueue s else lruQueue s) ! i})"
    by (simp add: removePage_queues(3) [OF assms(3)] set_map_insert [OF k] keys_map_erase)
qed

lemma fix_page_full_miss:
  assumes inv: "pool_inv s" and small: "unat (pageCount s) < 2 ^ 31"
    and miss: "map_find (bufferMapping s) k = None"
    and full: "word_of_nat (length (bufferMapping s)) = pageCount s"
  shows "case select_victim s of
           None \<Rightarrow> fix_page t k x s = (Inl buffer_full_error, s)
         | Some v \<Rightarrow> pin_count s v = Some 0 \<and> fst (fix_page t k x s) = Inr (length (heap s)) \<and>
             fst ` set (bufferMapping (snd (fix_page t k x s))) =
               insert k (fst ` set (bufferMapping s) - {v})"
proof -
  have len: "length (fifoQueue s) < 2 ^ 31" "length (lruQueue s) < 2 ^ 31"
    using queue_lengths [OF inv] inv small by (simp_all add: pool_inv_def)
  have sub: "set (fifoQueue s) \<subseteq> fst ` set (bufferMapping s)"
    "set (lruQueue s) \<subseteq> fst ` set (bufferMapping s)"
    using inv by (auto simp: pool_inv_def)
  have F: "case first_unpinned s (fifoQueue s) of
           None \<Rightarrow> getPageIndexToRemove True s = (Inr (- 1), s)
         | Some v \<Rightarrow> \<exists>i p. getPageIndexToRemove True s = (Inr (int i), writeDisk p s) \<and>
             i < length (fifoQueue s) \<and> fifoQueue s ! i = v \<and> pin_count s v = Some 0"
    using getPageIndexToRemove_fifo [OF sub(1) len(1)]
    by (auto split: option.splits)
  have L: "case first_unpinned s (lruQueue s) of
           None \<Rightarrow> getPageIndexToRemove False s = (Inr (- 1), s)
         | Some v \<Rightarrow> \<exists>i p. getPageIndexToRemove False s = (Inr (int i), writeDisk p s) \<and>
             i < length (lruQueue s) \<and> lruQueue s ! i = v \<and> pin_count s v = Some 0"
    using getPageIndexToRemove_lru [OF sub(2) len(2)]
    by (auto split: option.splits)
  have fp: "fix_page t k x s =
      (case getPageIndexToRemove True s of
         (Inl e, s1) \<Rightarrow> (Inl e, s1)
       | (Inr fifoToRemove, s1) \<Rightarrow>
           if fifoToRemove \<noteq> - 1 then removePage t k fifoToRemove x True s1
           else
             (case getPageIndexToRemove False s1 of
                (Inl e, s2) \<Rightarrow> (Inl e, s2)
              | (Inr lruToRemove, s2) \<Rightarrow>
                  if lruToRemove \<noteq> - 1 then removePage t k lruToRemove x False s2
                  else (Inl buffer_full_error, s2)))"
    using miss full by (simp add: fix_page_def)
  show ?thesis
  proof (cases "first_unpinned s (fifoQueue s)")
    case (Some v)
    with F obtain i p where f: "getPageIndexToRemove True s = (Inr (int i), writeDisk p s)"
      "i < length (fifoQueue s)" "fifoQueue s ! i = v" "pin_count s v = Some 0" by auto
    have w: "pool_inv (writeDisk p s)" "map_find (bufferMapping (writeDisk p s)) k = None"
      "i < length (if True then fifoQueue (writeDisk p s) else lruQueue (writeDisk p s))"
      using inv miss f(2) by simp_all
    from removePage_result [OF w, of t x] f Some show ?thesis
      by (simp add: fp select_victim_def)
  next
    case None
    with F have f: "getPageIndexToRemove True s = (Inr (- 1), s)" by simp
    show ?thesis
    proof (cases "first_unpinned s (lruQueue s)")
      case (Some v)
      with L obtain i p where l: "getPageIndexToRemove False s = (Inr (int i), writeDisk p s)"
        "i < length (lruQueue s)" "lruQueue s ! i = v" "pin_count s v = Some 0" by auto
      have w: "pool_inv (writeDisk p s)" "map_find (bufferMapping (writeDisk p s)) k = None"
        "i < length (if False then fifoQueue (writeDisk p s) else lruQueue (writeDisk p s))"
        using inv miss l(2) by simp_all
      from removePage_result [OF w, of t x] f l None Some show ?thesis
        by (simp add: fp select_victim_def)
    next
      case nl: None
      with L have "getPageIndexToRemove False s = (Inr (- 1), s)" by simp
      with f None nl show ?thesis by (simp add: fp select_victim_def)
    qed
  qed
qed

subsection \<open>The pool of unpinned pages\<close>

lemma word_of_nat_inj64:
  assumes "i < 2 ^ 64" "j < 2 ^ 64" "(word_of_nat i :: 64 word) = word_of_nat j"
  shows "i = j"
proof -
  have "inj_on (word_of_nat :: nat \<Rightarrow> 64 word) {0..<2 ^ 64}"
    using inj_on_word_of_nat [where ?'a = 64] by simp
  with assms show ?thesis by (auto dest: inj_onD)
qed

lemma unpinned_pool_fields:
  "pageCount (unpinned_pool cap n) = word_of_nat cap"
  "fifoQueue (unpinned_pool cap n) = map word_of_nat [0..<n]"
  "lruQueue (unpinned_pool cap n) = []"
  "bufferMapping (unpinned_pool cap n) = map (\<lambda>i. (word_of_nat i, i)) [0..<n]"
  "heap (unpinned_pool cap n) = map (\<lambda>i. BufferFrame_new (word_of_nat i) 0) [0..<n]"
  by (simp_all add: unpinned_pool_def)

lemma unpinned_pool_keys:
  "fst ` set (bufferMapping (unpinned_pool cap n)) = word_of_nat ` {0..<n}"
  by (simp add: unpinned_pool_fields image_image)

lemma unpinned_pool_head:
  assumes "0 < n"
  shows "first_unpinned (unpinned_pool cap n) (fifoQueue (unpinned_pool cap n)) = Some 0"
proof -
  have u: "[0..<n] = 0 # [Suc 0..<n]" using assms by (rule upt_conv_Cons)
  have "map_find (bufferMapping (unpinned_pool cap n)) 0 = Some 0"
    by (simp add: unpinned_pool_fields map_find_def u)
  moreover have "counter (heap (unpinned_pool cap n) ! 0) = 0"
    using assms by (simp add: unpinned_pool_fields BufferFrame_new_def)
  ultimately have "pin_count (unpinned_pool cap n) 0 = Some 0"
    by (simp add: pin_count_zero)
  then show ?thesis
    by (simp add: first_unpinned_def unpinned_pool_fields u)
qed

lemma unpinned_pool_scan:
  assumes "static_cast_int n \<le> 0"
  shows "getPageIndexToRemove True (unpinned_pool cap n) = (Inr (- 1), unpinned_pool cap n)"
  using assms
  by (simp add: getPageIndexToRemove_def scan_queue.simps [of _ 0] unpinned_pool_fields)

lemma unpinned_pool_full:
  assumes "n < 2 ^ 64" "static_cast_int n \<le> 0"
  shows "fix_page t (word_of_nat n) x (unpinned_pool n n) = (Inl buffer_full_error, unpinned_pool n n)"
proof -
  have "(word_of_nat n :: 64 word) \<notin> word_of_nat ` {0..<n}"
  proof
    assume "(word_of_nat n :: 64 word) \<in> word_of_nat ` {0..<n}"
    then obtain i where i: "i < n" "(word_of_nat n :: 64 word) = word_of_nat i" by auto
    with assms(1) have "n = i" by (intro word_of_nat_inj64 [of n i]) simp_all
    with i(1) show False by simp
  qed
  then have miss: "map_find (bufferMapping (unpinned_pool n n)) (word_of_nat n) = None"
    by (simp add: map_find_None unpinned_pool_keys)
  have full: "word_of_nat (length (bufferMapping (unpinned_pool n n))) = pageCount (unpinned_pool n n)"
    by (simp add: unpinned_pool_fields)
  have lru: "getPageIndexToRemove False (unpinned_pool n n) = (Inr (- 1), unpinned_pool n n)"
    by (simp add: getPageIndexToRemove_def scan_queue.simps [of _ 0] unpinned_pool_fields
        static_cast_int_def)
  show ?thesis
    using miss full unpinned_pool_scan [OF assms(2)] lru by (simp add: fix_page_def)
qed

lemma run_append:
  "run s (cs @ ds) = (case run s cs of None \<Rightarrow> None | Some s' \<Rightarrow> run s' ds)"
  by (induction cs arbitrary: s) (auto split: option.splits)

lemma insort_key_last:
  "\<forall>y \<in> set xs. f y < f x \<Longrightarrow> insort_key f x xs = xs @ [x]"
  by (induction xs) auto

lemma word_of_nat_less64:
  assumes "i < j" "j < 2 ^ 64"
  shows "(word_of_nat i :: 64 word) < word_of_nat j"
proof -
  have "unat (word_of_nat i :: 64 word) = i" "unat (word_of_nat j :: 64 word) = j"
    using assms by (simp_all add: unat_of_nat)
  with assms(1) show ?thesis by (simp add: word_less_nat_alt)
qed

lemma unpinned_pool_step:
  assumes "n < cap" "cap < 2 ^ 64"
  shows "run (unpinned_pool cap n) [Fix 0 (word_of_nat n) False, Unfix 0 n False] =
           Some (unpinned_pool cap (Suc n))"
proof -
  have n64: "n < 2 ^ 64" using assms by simp
  have less: "(word_of_nat i :: 64 word) < word_of_nat n" if "i < n" for i
    using that n64 by (rule word_of_nat_less64)
  have keys: "fst ` set (bufferMapping (unpinned_pool cap n)) = word_of_nat ` {0..<n}"
    by (simp add: unpinned_pool_def image_image)
  have miss: "map_find (bufferMapping (unpinned_pool cap n)) (word_of_nat n) = None"
    unfolding map_find_None keys using less by fastforce
  have "(word_of_nat n :: 64 word) \<noteq> word_of_nat cap"
    using word_of_nat_less64 [OF assms] by simp
  then have notfull: "word_of_nat (length (bufferMapping (unpinned_pool cap n))) \<noteq>
      pageCount (unpinned_pool cap n)"
    by (simp add: unpinned_pool_def)
  have ins: "map_insert (word_of_nat n) n (bufferMapping (unpinned_pool cap n)) =
      bufferMapping (unpinned_pool cap n) @ [(word_of_nat n, n)]"
  proof -
    have "\<forall>y \<in> set (bufferMapping (unpinned_pool cap n)). fst y < fst (word_of_nat n :: 64 word, n)"
      using less by (auto simp: unpinned_pool_def)
    from insort_key_last [OF this] miss show ?thesis
      by (simp add: map_insert_def map_find_def)
  qed
  have fp: "fix_page 0 (word_of_nat n) False (unpinned_pool cap n) =
      addNewPage 0 (word_of_nat n) False (unpinned_pool cap n)"
    using miss notfull by (simp add: fix_page_def)
  have e1: "exec (unpinned_pool cap n) (Fix 0 (word_of_nat n) False) =
      Some (snd (addNewPage 0 (word_of_nat n) False (unpinned_pool cap n)))"
    unfolding exec_def call.case fp by (subst addNewPage_pair) simp
  let ?mid = "snd (addNewPage 0 (word_of_nat n) False (unpinned_pool cap n))"
  have e2: "exec ?mid (Unfix 0 n False) = Some (unpinned_pool cap (Suc n))"
  proof -
    define hs where "hs = heap (unpinned_pool cap n)"
    have len: "length (heap (unpinned_pool cap n)) = n"
      by (simp add: unpinned_pool_def)
    have h: "heap ?mid = hs @ [(loaded_frame 0 (word_of_nat n) False
        (unpinned_pool cap n))\<lparr>data := []\<rparr>]"
      by (simp add: addNewPage_result unpinned_pool_def read_block_def hs_def)
    have "unfix_page 0 (length hs) False ?mid =
        (Inr (), ?mid\<lparr>heap := hs @ [BufferFrame_new (word_of_nat n) 0]\<rparr>)"
      by (simp add: unfix_page_def Let_def call_frame_def on_frame_def h
          unlockPage_def decCounter_def loaded_frame_def mutex_unlock_shared_def
          BufferFrame_new_def addNewPage_result(5) unpinned_pool_fields
          unpinned_pool_def [of cap n, THEN arg_cong [where f = pageSize_bm]])
    then have u: "unfix_page 0 n False ?mid =
        (Inr (), ?mid\<lparr>heap := heap (unpinned_pool cap n) @ [BufferFrame_new (word_of_nat n) 0]\<rparr>)"
      by (simp add: hs_def len)
    show ?thesis
      using ins
      by (simp add: exec_def u)
         (rule BufferManager.equality;
          simp add: addNewPage_result unpinned_pool_def loaded_frame_def BufferManager_new_def)
  qed
  show ?thesis using e1 e2 by simp
qed

lemma unpinned_pool_reached:
  assumes "n \<le> cap" "cap < 2 ^ 64"
  shows "run (BufferManager_new 0 (word_of_nat cap) empty_disk) (fix_unfix_each n) =
           Some (unpinned_pool cap n)"
  using assms(1)
proof (induction n)
  case 0
  show ?case by (simp add: unpinned_pool_def BufferManager_new_def)
next
  case (Suc n)
  then have "n < cap" "n \<le> cap" by simp_all
  with Suc.IH unpinned_pool_step [OF \<open>n < cap\<close> assms(2)] show ?case
    by (simp add: run_append del: run.simps)
qed

subsection \<open>The outcomes of \<open>fix_page\<close>\<close>

lemma scan_queue_no_throw:
  assumes "0 \<le> i" "set q \<subseteq> fst ` set (bufferMapping s)"
  shows "fst (scan_queue q i s) \<noteq> Inl e"
  using assms
proof (induction q i s rule: scan_queue.induct)
  case (1 q i s)
  show ?case
  proof (cases "i < static_cast_int (length q)")
    case False
    then show ?thesis by (simp add: scan_queue.simps [of q i s])
  next
    case True
    have "static_cast_int (length q) \<le> int (length q)" by (rule static_cast_int_le)
    with True "1.prems"(1) have "nat i < length q" by linarith
    with "1.prems"(2) have "q ! nat i \<in> fst ` set (bufferMapping s)" using nth_mem by blast
    then obtain p where p: "map_find (bufferMapping s) (q ! nat i) = Some p"
      using map_find_None [of "bufferMapping s" "q ! nat i"]
      by (cases "map_find (bufferMapping s) (q ! nat i)") auto
    show ?thesis
    proof (cases "getCounter (heap s ! p) \<noteq> 0")
      case nz: True
      have "0 \<le> i + 1" using "1.prems"(1) by simp
      from "1.IH" [OF True p nz this "1.prems"(2)] True p nz show ?thesis
        by (simp add: scan_queue.simps [of q i s])
    next
      case False
      with True p show ?thesis by (simp add: scan_queue.simps [of q i s])
    qed
  qed
qed

text \<open>What a call of \<open>getPageIndexToRemove\<close> can do in a pool that satisfies the invariant.\<close>

lemma getPageIndexToRemove_inv:
  assumes "pool_inv s" "getPageIndexToRemove b s = (r, s')"
  shows "(r = Inr (- 1) \<and> s' = s) \<or>
         (\<exists>i p. r = Inr (int i) \<and> i < length (if b then fifoQueue s else lruQueue s) \<and>
            map_find (bufferMapping s) ((if b then fifoQueue s else lruQueue s) ! i) = Some p \<and>
            counter (heap s ! p) = 0 \<and> s' = writeDisk p s)"
proof -
  let ?q = "if b then fifoQueue s else lruQueue s"
  have sub: "set ?q \<subseteq> fst ` set (bufferMapping s)" using assms(1) by (auto simp: pool_inv_def)
  have g: "getPageIndexToRemove b s = scan_queue ?q 0 s" by (simp add: getPageIndexToRemove_def)
  have "r \<noteq> Inl out_of_range"
    using scan_queue_no_throw [OF _ sub, of 0 out_of_range] assms(2) g by simp
  with getPageIndexToRemove_shape [OF assms(2)] show ?thesis
    by (auto intro: exI [of _ "nat j" for j])
qed


lemma fix_page_cases [consumes 1, case_names hit free fifo lru full]:
  assumes "pool_inv s"
  obtains p where "map_find (bufferMapping s) k = Some p"
      "fix_page t k x s = updateExistingPage t k x s"
  | "map_find (bufferMapping s) k = None"
      "word_of_nat (length (bufferMapping s)) \<noteq> pageCount s"
      "fix_page t k x s = addNewPage t k x s"
  | i p where "map_find (bufferMapping s) k = None"
      "word_of_nat (length (bufferMapping s)) = pageCount s"
      "i < length (fifoQueue s)" "map_find (bufferMapping s) (fifoQueue s ! i) = Some p"
      "counter (heap s ! p) = 0"
      "fix_page t k x s = removePage t k (int i) x True (writeDisk p s)"
  | i p where "map_find (bufferMapping s) k = None"
      "word_of_nat (length (bufferMapping s)) = pageCount s"
      "i < length (lruQueue s)" "map_find (bufferMapping s) (lruQueue s ! i) = Some p"
      "counter (heap s ! p) = 0"
      "fix_page t k x s = removePage t k (int i) x False (writeDisk p s)"
  | "map_find (bufferMapping s) k = None"
      "word_of_nat (length (bufferMapping s)) = pageCount s"
      "fix_page t k x s = (Inl buffer_full_error, s)"
proof (cases "map_find (bufferMapping s) k")
  case (Some p)
  then have "fix_page t k x s = updateExistingPage t k x s" by (simp add: fix_page_def)
  with Some that(1) show ?thesis by blast
next
  case miss: None
  show ?thesis
  proof (cases "word_of_nat (length (bufferMapping s)) = pageCount s")
    case False
    with miss have "fix_page t k x s = addNewPage t k x s" by (simp add: fix_page_def)
    with miss False that(2) show ?thesis by blast
  next
    case full: True
    obtain r1 s1 where g1: "getPageIndexToRemove True s = (r1, s1)"
      by (cases "getPageIndexToRemove True s")
    from getPageIndexToRemove_inv [OF assms g1]
    consider "r1 = Inr (- 1)" "s1 = s"
      | i p where "r1 = Inr (int i)" "i < length (fifoQueue s)"
          "map_find (bufferMapping s) (fifoQueue s ! i) = Some p"
          "counter (heap s ! p) = 0" "s1 = writeDisk p s"
      by auto
    then show ?thesis
    proof cases
      case 2
      with miss full g1 have "fix_page t k x s = removePage t k (int i) x True (writeDisk p s)"
        by (simp add: fix_page_def)
      with miss full 2 that(3) show ?thesis by blast
    next
      case 1
      obtain r2 s2 where g2: "getPageIndexToRemove False s = (r2, s2)"
        by (cases "getPageIndexToRemove False s")
      from getPageIndexToRemove_inv [OF assms g2]
      consider "r2 = Inr (- 1)" "s2 = s"
        | i p where "r2 = Inr (int i)" "i < length (lruQueue s)"
            "map_find (bufferMapping s) (lruQueue s ! i) = Some p"
            "counter (heap s ! p) = 0" "s2 = writeDisk p s"
        by auto
      then show ?thesis
      proof cases
        case a: 1
        with 1 miss full g1 g2 have "fix_page t k x s = (Inl buffer_full_error, s)"
          by (simp add: fix_page_def)
        with miss full that(5) show ?thesis by blast
      next
        case b: 2
        with 1 miss full g1 g2
        have "fix_page t k x s = removePage t k (int i) x False (writeDisk p s)"
          by (simp add: fix_page_def)
        with miss full b that(4) show ?thesis by blast
      qed
    qed
  qed
qed

lemma map_find_valid:
  assumes "pool_inv s" "map_find (bufferMapping s) k = Some p"
  shows "p < length (heap s)" "pageId (heap s ! p) = k" "k \<in> set (fifoQueue s) \<union> set (lruQueue s)"
    "k \<in> fst ` set (bufferMapping s)"
proof -
  have "(k, p) \<in> set (bufferMapping s)"
    using assms by (simp add: pool_inv_def map_find_Some)
  with assms(1) show "p < length (heap s)" "pageId (heap s ! p) = k"
    "k \<in> fst ` set (bufferMapping s)"
    by (force simp: pool_inv_def)+
  with assms(1) show "k \<in> set (fifoQueue s) \<union> set (lruQueue s)"
    by (simp add: pool_inv_def)
qed

lemma lockPage_incCounter:
  "fst (lockPage t x (incCounter f)) = fst (lockPage t x f)"
  "snd (lockPage t x (incCounter f)) = (snd (lockPage t x f))\<lparr>counter := counter f + 1\<rparr>"
  by (simp_all add: lockPage_def incCounter_def split: sum.splits)

lemma unlockPage_decCounter:
  "fst (unlockPage t d (decCounter f)) = fst (unlockPage t d f)"
  "snd (unlockPage t d (decCounter f)) = (snd (unlockPage t d f))\<lparr>counter := counter f - 1\<rparr>"
  by (simp_all add: unlockPage_def decCounter_def Let_def split: sum.splits)

lemma holds_lock_decCounter [simp]: "holds_lock t (decCounter f) = holds_lock t f"
  by (simp add: holds_lock_def decCounter_def)

lemma lockPage_fields [simp]:
  "pageSize (snd (lockPage t x f)) = pageSize f"
  "counter (snd (lockPage t x f)) = counter f"
  "mIsDirty (snd (lockPage t x f)) = mIsDirty f"
  "data (snd (lockPage t x f)) = data f"
  by (simp_all add: lockPage_def split: sum.splits)

lemma unlockPage_fields [simp]:
  "pageSize (snd (unlockPage t d f)) = pageSize f"
  "counter (snd (unlockPage t d f)) = counter f"
  "mIsDirty (snd (unlockPage t d f)) = d"
  "mIsExclusive (snd (unlockPage t d f)) = mIsExclusive f"
  "data (snd (unlockPage t d f)) = data f"
  by (simp_all add: unlockPage_def Let_def split: sum.splits)

lemma unlockPage_result:
  "fst (unlockPage t d f) = (if holds_lock t f then Inr () else Inl undefined_behaviour)"
  "pageMutex (snd (unlockPage t d f)) =
     (if holds_lock t f
      then (if mIsExclusive f then Mutex None (readers (pageMutex f))
            else Mutex (writer (pageMutex f)) (remove1 t (readers (pageMutex f))))
      else pageMutex f)"
  by (simp_all add: unlockPage_def Let_def holds_lock_def mutex_unlock_def mutex_unlock_shared_def)

lemma lockPage_result:
  "fst (lockPage t x f) =
     (if owns t (pageMutex f) then Inl undefined_behaviour
      else if writer (pageMutex f) = None \<and> (x \<longrightarrow> readers (pageMutex f) = [])
      then Inr () else Inl would_block)"
  "pageMutex (snd (lockPage t x f)) =
     (if fst (lockPage t x f) = Inr ()
      then (if x then Mutex (Some t) [] else Mutex None (readers (pageMutex f) @ [t]))
      else pageMutex f)"
  "mIsExclusive (snd (lockPage t x f)) =
     (if fst (lockPage t x f) = Inr () then x else mIsExclusive f)"
  by (auto simp: lockPage_def mutex_lock_def mutex_lock_shared_def)

lemma updateExistingPage_result:
  assumes "pool_inv s" "map_find (bufferMapping s) k = Some p"
  shows "fst (updateExistingPage t k x s) =
           (case fst (lockPage t x (heap s ! p)) of Inl e \<Rightarrow> Inl e | Inr u \<Rightarrow> Inr p)"
    and "heap (snd (updateExistingPage t k x s)) =
           (heap s)[p := (snd (lockPage t x (heap s ! p)))\<lparr>counter := counter (heap s ! p) + 1\<rparr>]"
    and "bufferMapping (snd (updateExistingPage t k x s)) = bufferMapping s"
    and "disk (snd (updateExistingPage t k x s)) = disk s"
    and "io_log (snd (updateExistingPage t k x s)) = io_log s"
    and "pageCount (snd (updateExistingPage t k x s)) = pageCount s"
    and "pageSize_bm (snd (updateExistingPage t k x s)) = pageSize_bm s"
    and "fifoQueue (snd (updateExistingPage t k x s)) =
           (if k \<in> set (lruQueue s) then fifoQueue s else remove1 k (fifoQueue s))"
    and "lruQueue (snd (updateExistingPage t k x s)) =
           (if k \<in> set (lruQueue s) then remove1 k (lruQueue s) @ [k] else lruQueue s @ [k])"
proof -
  note v = map_find_valid [OF assms]
  have q: "k \<notin> set (lruQueue s) \<Longrightarrow> k \<in> set (fifoQueue s)" using v(3) by auto
  note defs = updateExistingPage_def Let_def case_call_frame on_frame_def lockPage_incCounter
  show "fst (updateExistingPage t k x s) =
           (case fst (lockPage t x (heap s ! p)) of Inl e \<Rightarrow> Inl e | Inr u \<Rightarrow> Inr p)"
    using assms(2) q v(1) by (simp add: defs split: sum.splits)
  show "heap (snd (updateExistingPage t k x s)) =
           (heap s)[p := (snd (lockPage t x (heap s ! p)))\<lparr>counter := counter (heap s ! p) + 1\<rparr>]"
    using assms(2) q v(1) by (simp add: defs split: sum.splits)
  show "bufferMapping (snd (updateExistingPage t k x s)) = bufferMapping s"
    "disk (snd (updateExistingPage t k x s)) = disk s"
    "io_log (snd (updateExistingPage t k x s)) = io_log s"
    "pageCount (snd (updateExistingPage t k x s)) = pageCount s"
    "pageSize_bm (snd (updateExistingPage t k x s)) = pageSize_bm s"
    "fifoQueue (snd (updateExistingPage t k x s)) =
           (if k \<in> set (lruQueue s) then fifoQueue s else remove1 k (fifoQueue s))"
    "lruQueue (snd (updateExistingPage t k x s)) =
           (if k \<in> set (lruQueue s) then remove1 k (lruQueue s) @ [k] else lruQueue s @ [k])"
    using assms(2) q by (simp_all add: defs split: sum.splits)
qed

lemma unfix_page_result:
  assumes "p < length (heap s)"
  shows "fst (unfix_page t p d s) =
           (if holds_lock t (heap s ! p) then Inr () else Inl undefined_behaviour)"
    and "heap (snd (unfix_page t p d s)) =
           (heap s)[p := (snd (unlockPage t d (heap s ! p)))\<lparr>counter := counter (heap s ! p) - 1\<rparr>]"
    and "bufferMapping (snd (unfix_page t p d s)) = bufferMapping s"
    and "disk (snd (unfix_page t p d s)) = disk s"
    and "io_log (snd (unfix_page t p d s)) = io_log s"
    and "pageSize_bm (snd (unfix_page t p d s)) = pageSize_bm s"
    and "fifoQueue (snd (unfix_page t p d s)) = fifoQueue s"
    and "lruQueue (snd (unfix_page t p d s)) =
           (if holds_lock t (heap s ! p) \<and> pageId (heap s ! p) \<in> set (lruQueue s)
            then remove1 (pageId (heap s ! p)) (lruQueue s) @ [pageId (heap s ! p)]
            else lruQueue s)"
  using assms
  by (simp_all add: unfix_page_def Let_def case_call_frame on_frame_def unlockPage_decCounter
      unlockPage_result(1) split: sum.splits)

lemma set_erase_at: "set (erase_at i xs) \<subseteq> set xs"
  by (auto simp: erase_at_def dest: in_set_takeD in_set_dropD)

lemma pin_count_Some:
  "map_find (bufferMapping s) k = Some p \<Longrightarrow> counter (heap s ! p) = 0 \<Longrightarrow> pin_count s k = Some 0"
  by (simp add: pin_count_zero)

lemma in_set_touch: "k \<in> set l \<Longrightarrow> k \<in> set (remove1 x l @ [x])"
  by (cases "k = x") simp_all

lemma lru_stays:
  assumes "pool_inv u" "k \<in> set (lruQueue u)" "exec u c = Some u'"
  shows "k \<in> set (lruQueue u') \<or> map_find (bufferMapping u') k = None"
proof (cases c)
  case (Unfix t p d)
  with assms(3) have p: "p < length (heap u)" and u': "u' = snd (unfix_page t p d u)"
    by (auto simp: exec_def unfix_page_def split: prod.splits sum.splits if_splits)
  from assms(2) have "k \<in> set (lruQueue u')"
    unfolding u' unfix_page_result(8) [OF p] by (simp add: in_set_touch del: set_append)
  then show ?thesis by simp
next
  case (Fix t k' x)
  have u': "u' = snd (fix_page t k' x u)"
    using assms(3) Fix by (auto simp: exec_def split: prod.splits sum.splits if_splits)
  have res: "k \<in> fst ` set (bufferMapping u)" using assms(1,2) by (auto simp: pool_inv_def)
  from assms(1) show ?thesis
  proof (cases rule: fix_page_cases [where t = t and k = k' and x = x])
    case (hit p)
    with updateExistingPage_result(9) [OF assms(1) hit(1), of t x] assms(2) u'
    have "k \<in> set (lruQueue u')" by (simp add: in_set_touch del: set_append) simp
    then show ?thesis by simp
  next
    case free
    with addNewPage_result(5) [of t k' x u] assms(2) u' show ?thesis by simp
  next
    case (fifo i p)
    have "i < length (if True then fifoQueue (writeDisk p u) else lruQueue (writeDisk p u))"
      using fifo(3) by simp
    from removePage_queues(5) [OF this, of t k' x] fifo(6) assms(2) u' show ?thesis by simp
  next
    case (lru i p)
    have i: "i < length (if False then fifoQueue (writeDisk p u) else lruQueue (writeDisk p u))"
      using lru(3) by simp
    have l: "lruQueue u' = erase_at i (lruQueue u)"
      using removePage_queues(5) [OF i, of t k' x] lru(6) u' by simp
    have d: "distinct (lruQueue u)" using assms(1) by (simp add: pool_inv_def)
    show ?thesis
    proof (cases "lruQueue u ! i = k")
      case False
      with assms(2) d lru(3) l show ?thesis by (simp add: erase_at_remove1)
    next
      case True
      have w: "pool_inv (writeDisk p u)" "map_find (bufferMapping (writeDisk p u)) k' = None"
        using assms(1) lru(1) by simp_all
      have "k \<noteq> k'" using res lru(1) by (auto simp: map_find_None)
      with removePage_result(2) [OF w i, of t x] True lru(6) u'
      have "k \<notin> fst ` set (bufferMapping u')" by simp
      then show ?thesis by (simp add: map_find_None)
    qed
  next
    case full
    with assms(2) u' show ?thesis by simp
  qed
qed

subsection \<open>The disk calls of \<open>fix_page\<close> and \<open>unfix_page\<close>\<close>




subsection \<open>Which calls return\<close>


subsection \<open>Pins and owners\<close>
















subsection \<open>The destructor\<close>

lemma heap_flush_entries [simp]: "heap (flush_entries es s) = heap s"
  by (induction es arbitrary: s) simp_all


subsection \<open>The scan below \<open>2 ^ 31\<close> pages\<close>

text \<open>
  In a pool of fewer than \<open>2 ^ 31\<close> pages, \<open>getPageIndexToRemove\<close> scans the
  FIFO queue (resp. the LRU queue) from its head and returns the index of the first id
  whose frame has pin count zero, and \<open>-1\<close> if there is none. A \<open>fix_page\<close> of a
  non-resident id on a full pool evicts the first unpinned id of the FIFO queue, if there
  is none the first unpinned id of the LRU queue, and if there is none either it fails with
  \<open>buffer_full_error\<close>, the pool unchanged. The pin count of every id selected is exactly
  zero at that moment.
\<close>

lemma victim_selection:
  assumes "pool_inv s" "unat (pageCount s) < 2 ^ 31"
  shows
    "(case first_unpinned s (fifoQueue s) of
        None \<Rightarrow> getPageIndexToRemove True s = (Inr (- 1), s)
      | Some v \<Rightarrow> \<exists>i p. getPageIndexToRemove True s = (Inr (int i), writeDisk p s) \<and>
          i < length (fifoQueue s) \<and> fifoQueue s ! i = v \<and>
          (\<forall>j<i. pin_count s (fifoQueue s ! j) \<noteq> Some 0) \<and>
          map_find (bufferMapping s) v = Some p \<and> pin_count s v = Some 0) \<and>
     (case first_unpinned s (lruQueue s) of
        None \<Rightarrow> getPageIndexToRemove False s = (Inr (- 1), s)
      | Some v \<Rightarrow> \<exists>i p. getPageIndexToRemove False s = (Inr (int i), writeDisk p s) \<and>
          i < length (lruQueue s) \<and> lruQueue s ! i = v \<and>
          (\<forall>j<i. pin_count s (lruQueue s ! j) \<noteq> Some 0) \<and>
          map_find (bufferMapping s) v = Some p \<and> pin_count s v = Some 0) \<and>
     (map_find (bufferMapping s) k = None \<and>
      word_of_nat (length (bufferMapping s)) = pageCount s \<longrightarrow>
        (case select_victim s of
           None \<Rightarrow> fix_page t k x s = (Inl buffer_full_error, s)
         | Some v \<Rightarrow> pin_count s v = Some 0 \<and> fst (fix_page t k x s) = Inr (length (heap s)) \<and>
             fst ` set (bufferMapping (snd (fix_page t k x s))) =
               insert k (fst ` set (bufferMapping s) - {v})))"
proof -
  have len: "length (fifoQueue s) < 2 ^ 31" "length (lruQueue s) < 2 ^ 31"
    using queue_lengths [OF assms(1)] assms by (simp_all add: pool_inv_def)
  have sub: "set (fifoQueue s) \<subseteq> fst ` set (bufferMapping s)"
    "set (lruQueue s) \<subseteq> fst ` set (bufferMapping s)"
    using assms(1) by (auto simp: pool_inv_def)
  have "case first_unpinned s (fifoQueue s) of
        None \<Rightarrow> getPageIndexToRemove True s = (Inr (- 1), s)
      | Some v \<Rightarrow> \<exists>i p. getPageIndexToRemove True s = (Inr (int i), writeDisk p s) \<and>
          i < length (fifoQueue s) \<and> fifoQueue s ! i = v \<and>
          (\<forall>j<i. pin_count s (fifoQueue s ! j) \<noteq> Some 0) \<and>
          map_find (bufferMapping s) v = Some p \<and> pin_count s v = Some 0"
    by (rule getPageIndexToRemove_fifo [OF sub(1) len(1)])
  moreover have "case first_unpinned s (lruQueue s) of
        None \<Rightarrow> getPageIndexToRemove False s = (Inr (- 1), s)
      | Some v \<Rightarrow> \<exists>i p. getPageIndexToRemove False s = (Inr (int i), writeDisk p s) \<and>
          i < length (lruQueue s) \<and> lruQueue s ! i = v \<and>
          (\<forall>j<i. pin_count s (lruQueue s ! j) \<noteq> Some 0) \<and>
          map_find (bufferMapping s) v = Some p \<and> pin_count s v = Some 0"
    by (rule getPageIndexToRemove_lru [OF sub(2) len(2)])
  moreover have "map_find (bufferMapping s) k = None \<and>
      word_of_nat (length (bufferMapping s)) = pageCount s \<longrightarrow>
        (case select_victim s of
           None \<Rightarrow> fix_page t k x s = (Inl buffer_full_error, s)
         | Some v \<Rightarrow> pin_count s v = Some 0 \<and> fst (fix_page t k x s) = Inr (length (heap s)) \<and>
             fst ` set (bufferMapping (snd (fix_page t k x s))) =
               insert k (fst ` set (bufferMapping s) - {v}))"
    using fix_page_full_miss [OF assms] by blast
  ultimately show ?thesis by blast
qed


lemma victim_selection_example:
  "\<exists>s. run (BufferManager_new 16 3 (\<lambda>_. []))
          [Fix 0 1 False, Fix 0 2 False, Fix 0 3 False, Unfix 0 1 False, Fix 0 2 False, Unfix 0 1 False]
          = Some s \<and>
       pool_inv s \<and> unat (pageCount s) < 2 ^ 31 \<and>
       first_unpinned s (fifoQueue s) = None \<and> select_victim s = Some 2 \<and>
       getPageIndexToRemove True s = (Inr (- 1), s) \<and>
       pin_count s 2 = Some 0 \<and> fst (fix_page 0 9 False s) = Inr (length (heap s))"
proof -
  let ?r = "run (BufferManager_new 16 3 (\<lambda>_. []))
          [Fix 0 1 False, Fix 0 2 False, Fix 0 3 False, Unfix 0 1 False, Fix 0 2 False, Unfix 0 1 False]"
  have "case ?r of None \<Rightarrow> False
        | Some s \<Rightarrow> pageCount s = 3 \<and>
            first_unpinned s (fifoQueue s) = None \<and>
            select_victim s = Some 2 \<and> map_find (bufferMapping s) 9 = None \<and>
            word_of_nat (length (bufferMapping s)) = pageCount s"
    by code_simp
  then obtain s where s: "?r = Some s" and pc: "pageCount s = 3"
    and f: "first_unpinned s (fifoQueue s) = None"
    and v: "select_victim s = Some 2"
    and m: "map_find (bufferMapping s) 9 = None \<and>
            word_of_nat (length (bufferMapping s)) = pageCount s"
    by (cases ?r) simp_all
  have inv: "pool_inv s" using pool_inv_new s by (rule pool_inv_run)
  have small: "unat (pageCount s) < 2 ^ 31" unfolding pc by simp
  note T = victim_selection [OF inv small, of 9 0 False]
  from T f have a: "getPageIndexToRemove True s = (Inr (- 1), s)" by simp
  from T m v have b: "pin_count s 2 = Some 0 \<and> fst (fix_page 0 9 False s) = Inr (length (heap s))"
    by simp
  from s inv small f v a b show ?thesis by blast
qed

section \<open>Claims\<close>



text \<open>
  C2. Victim selection returns the first id of the FIFO queue whose frame has pin count
  zero, else the first such id of the LRU queue, and \<open>fix_page\<close> fails with
  \<open>buffer_full_error\<close> only if neither queue has one. The code does not do this where a
  queue holds \<open>2 ^ 31\<close> ids: the scan compares its \<open>int\<close> index with
  \<open>static_cast<int>(size)\<close>, which is negative there, so the loop body never runs. A new
  pool of \<open>2 ^ 31\<close> pages in which pages \<open>0, \<dots>, 2 ^ 31 - 1\<close> have each been fixed and
  unfixed once holds \<open>2 ^ 31\<close> unpinned pages; the head of its FIFO queue is unpinned,
  yet \<open>getPageIndexToRemove\<close> returns \<open>-1\<close> and \<open>fix_page\<close> of one more page throws
  \<open>buffer_full_error\<close>, the exception the header documents for a page that cannot be
  loaded because the buffer is full. (Whatever the size, an id that
  \<open>getPageIndexToRemove\<close> does return has pin count zero:
  \<open>getPageIndexToRemove_shape\<close>; and below \<open>2 ^ 31\<close> pages the scan is the one the claim
  describes: \<open>victim_selection\<close>.)
\<close>

theorem int_scan_index_counterexample:
  "run (BufferManager_new 0 2147483648 empty_disk) (fix_unfix_each 2147483648) =
     Some (unpinned_pool 2147483648 2147483648) \<and>
   first_unpinned (unpinned_pool 2147483648 2147483648)
     (fifoQueue (unpinned_pool 2147483648 2147483648)) = Some 0 \<and>
   getPageIndexToRemove True (unpinned_pool 2147483648 2147483648) =
     (Inr (- 1), unpinned_pool 2147483648 2147483648) \<and>
   fix_page 0 2147483648 False (unpinned_pool 2147483648 2147483648) =
     (Inl buffer_full_error, unpinned_pool 2147483648 2147483648)"
proof -
  have c: "static_cast_int 2147483648 \<le> 0" by (simp add: static_cast_int_def)
  have n: "(2147483648 :: nat) < 2 ^ 64" by simp
  have w: "(word_of_nat 2147483648 :: 64 word) = 2147483648" by simp
  from unpinned_pool_reached [OF order_refl n] unpinned_pool_head [of 2147483648]
    unpinned_pool_scan [OF c] unpinned_pool_full [OF n c, of 0 False]
  show ?thesis unfolding w by simp
qed

text \<open>
  C3. The claim says that a clean victim is evicted without any disk write. In the third
  scenario of the specification (pages 1, 2, 3 fixed and unfixed clean, then page 4 fixed)
  no write has happened before the last call, and fixing page 4 evicts page 1 and writes
  its frame although its dirty flag is false: \<open>getPageIndexToRemove\<close> calls \<open>writeDisk\<close>
  on every victim, without the \<open>isDirty\<close> test the destructor makes.
\<close>

theorem clean_victim_is_written:
  "map_option written_pages
     (scenario [Fix 0 1 False, Unfix 0 0 False, Fix 0 2 False, Unfix 0 1 False, Fix 0 3 False,
                Unfix 0 2 False]) = Some [] \<and>
   map_option written_pages
     (scenario [Fix 0 1 False, Unfix 0 0 False, Fix 0 2 False, Unfix 0 1 False, Fix 0 3 False,
                Unfix 0 2 False, Fix 0 4 False]) = Some [(1, False)] \<and>
   map_option get_fifo_list
     (scenario [Fix 0 1 False, Unfix 0 0 False, Fix 0 2 False, Unfix 0 1 False, Fix 0 3 False,
                Unfix 0 2 False, Fix 0 4 False]) = Some [2, 3, 4]"
  by code_simp

text \<open>
  C4. The claim says that an unfix never clears a dirty flag that is set. \<open>unlockPage\<close>
  assigns its argument to \<open>mIsDirty\<close>: after fix, unfix dirty, fix, unfix clean of page 1
  the flag is false again, and the destructor, which flushes dirty frames only, then
  writes nothing, where it writes page 1 after the first unfix alone.
\<close>

theorem unfix_clears_dirty:
  "map_option dirty_flags (scenario [Fix 0 1 True, Unfix 0 0 True]) = Some [True] \<and>
   map_option dirty_flags (scenario [Fix 0 1 True, Unfix 0 0 True, Fix 0 1 False, Unfix 0 0 False])
     = Some [False] \<and>
   map_option (written_pages \<circ> BufferManager_delete) (scenario [Fix 0 1 True, Unfix 0 0 True])
     = Some [(1, True)] \<and>
   map_option (written_pages \<circ> BufferManager_delete)
     (scenario [Fix 0 1 True, Unfix 0 0 True, Fix 0 1 False, Unfix 0 0 False]) = Some []"
  by code_simp

text \<open>
  C5. On a fix hit the pin count is incremented and the page id moves to the tail of the
  LRU queue: out of the FIFO queue if it was there (promotion), within the LRU queue if it
  was there. After the hit it is in the LRU queue only, and no later call moves it out of
  the LRU queue while it stays resident, so it is promoted at most once per residency.
  All this is done before the frame is locked: the call then returns the frame if the lock
  is granted at once, is suspended in \<open>lockPage\<close> if another thread holds the lock in a
  conflicting mode, and has undefined behaviour if the calling thread owns the lock
  already.
\<close>

theorem hit_promotes:
  assumes "pool_inv s" "map_find (bufferMapping s) k = Some p"
  shows "fst (fix_page t k x s) =
       (if owns t (pageMutex (heap s ! p)) then Inl undefined_behaviour
        else if writer (pageMutex (heap s ! p)) = None \<and>
                (x \<longrightarrow> readers (pageMutex (heap s ! p)) = [])
        then Inr p else Inl would_block) \<and>
     counter (heap (snd (fix_page t k x s)) ! p) = counter (heap s ! p) + 1 \<and>
     (k \<in> set (fifoQueue s) \<longrightarrow>
        fifoQueue (snd (fix_page t k x s)) = remove1 k (fifoQueue s) \<and>
        lruQueue (snd (fix_page t k x s)) = lruQueue s @ [k]) \<and>
     (k \<in> set (lruQueue s) \<longrightarrow>
        fifoQueue (snd (fix_page t k x s)) = fifoQueue s \<and>
        lruQueue (snd (fix_page t k x s)) = remove1 k (lruQueue s) @ [k]) \<and>
     k \<notin> set (fifoQueue (snd (fix_page t k x s))) \<and>
     last (lruQueue (snd (fix_page t k x s))) = k \<and>
     (\<forall>u c u'. pool_inv u \<and> k \<in> set (lruQueue u) \<and> exec u c = Some u' \<longrightarrow>
        k \<in> set (lruQueue u') \<or> map_find (bufferMapping u') k = None)"
proof -
  have fp: "fix_page t k x s = updateExistingPage t k x s"
    using assms(2) by (simp add: fix_page_def)
  note r = updateExistingPage_result [OF assms, of t x, folded fp]
  note v = map_find_valid [OF assms]
  have d: "distinct (fifoQueue s @ lruQueue s)" using assms(1) by (simp add: pool_inv_def)
  have "fst (fix_page t k x s) =
       (if owns t (pageMutex (heap s ! p)) then Inl undefined_behaviour
        else if writer (pageMutex (heap s ! p)) = None \<and>
                (x \<longrightarrow> readers (pageMutex (heap s ! p)) = [])
        then Inr p else Inl would_block)"
    unfolding r(1) lockPage_result(1) by simp
  moreover have "counter (heap (snd (fix_page t k x s)) ! p) = counter (heap s ! p) + 1"
    using r(2) v(1) by simp
  moreover have "k \<in> set (fifoQueue s) \<longrightarrow>
        fifoQueue (snd (fix_page t k x s)) = remove1 k (fifoQueue s) \<and>
        lruQueue (snd (fix_page t k x s)) = lruQueue s @ [k]"
    using r(8,9) d by auto
  moreover have "k \<in> set (lruQueue s) \<longrightarrow>
        fifoQueue (snd (fix_page t k x s)) = fifoQueue s \<and>
        lruQueue (snd (fix_page t k x s)) = remove1 k (lruQueue s) @ [k]"
    using r(8,9) by simp
  moreover have "k \<notin> set (fifoQueue (snd (fix_page t k x s)))"
    using r(8) d by auto
  moreover have "last (lruQueue (snd (fix_page t k x s))) = k"
    using r(9) by simp
  moreover have "\<forall>u c u'. pool_inv u \<and> k \<in> set (lruQueue u) \<and> exec u c = Some u' \<longrightarrow>
        k \<in> set (lruQueue u') \<or> map_find (bufferMapping u') k = None"
  proof (intro allI impI, elim conjE)
    fix u c u'
    assume "pool_inv u" "k \<in> set (lruQueue u)" "exec u c = Some u'"
    then show "k \<in> set (lruQueue u') \<or> map_find (bufferMapping u') k = None"
      by (rule lru_stays)
  qed
  ultimately show ?thesis by (intro conjI) assumption+
qed

theorem hit_promotes_witness:
  "\<exists>s. run (BufferManager_new 16 3 (\<lambda>_. [])) [Fix 0 1 False, Unfix 0 0 False] = Some s \<and>
       pool_inv s \<and> map_find (bufferMapping s) 1 = Some 0 \<and> 1 \<in> set (fifoQueue s) \<and>
       pageMutex (heap s ! 0) = Mutex None [] \<and>
       fst (fix_page 0 1 True s) = Inr 0 \<and>
       counter (heap (snd (fix_page 0 1 True s)) ! 0) = counter (heap s ! 0) + 1 \<and>
       fifoQueue (snd (fix_page 0 1 True s)) = remove1 1 (fifoQueue s) \<and>
       lruQueue (snd (fix_page 0 1 True s)) = lruQueue s @ [1]"
proof -
  let ?r = "run (BufferManager_new 16 3 (\<lambda>_. [])) [Fix 0 1 False, Unfix 0 0 False]"
  have "case ?r of None \<Rightarrow> False
        | Some s \<Rightarrow> map_find (bufferMapping s) 1 = Some 0 \<and> fifoQueue s = [1] \<and>
            pageMutex (heap s ! 0) = Mutex None []"
    by code_simp
  then obtain s where s: "?r = Some s" and m: "map_find (bufferMapping s) 1 = Some 0"
    and f: "fifoQueue s = [1]" and l: "pageMutex (heap s ! 0) = Mutex None []"
    by (cases ?r) simp_all
  have inv: "pool_inv s" using pool_inv_new s by (rule pool_inv_run)
  have f1: "1 \<in> set (fifoQueue s)" unfolding f by simp
  note T = hit_promotes [OF inv m, of 0 True]
  from T have a: "fst (fix_page 0 1 True s) = Inr 0"
    unfolding l by (simp add: owns_def)
  from T have a': "counter (heap (snd (fix_page 0 1 True s)) ! 0) = counter (heap s ! 0) + 1"
    by (rule conjunct2 [THEN conjunct1])
  have b: "fifoQueue (snd (fix_page 0 1 True s)) = remove1 1 (fifoQueue s) \<and>
       lruQueue (snd (fix_page 0 1 True s)) = lruQueue s @ [1]"
    by (rule T [THEN conjunct2, THEN conjunct2, THEN conjunct1, THEN mp, OF f1])
  from s inv m f1 l a a' b show ?thesis by blast
qed

text \<open>
  C6. When the map holds \<open>page_count\<close> entries and every resident frame is pinned,
  \<open>fix_page\<close> on a non-resident page id fails with \<open>buffer_full_error\<close> and leaves the
  whole state (map, queues, frames, disk, I/O trace) as it was.
\<close>

theorem all_pinned_buffer_full:
  assumes "pool_inv s" "length (bufferMapping s) = unat (pageCount s)"
    "map_find (bufferMapping s) k = None"
    "\<forall>e \<in> set (bufferMapping s). 0 < sint (counter (heap s ! snd e))"
  shows "fix_page t k x s = (Inl buffer_full_error, s)"
proof -
  have pinned: "counter (heap s ! p) \<noteq> 0" if "map_find (bufferMapping s) k' = Some p" for k' p
  proof -
    have "(k', p) \<in> set (bufferMapping s)"
      using assms(1) that by (simp add: pool_inv_def map_find_Some)
    with assms(4) have "0 < sint (counter (heap s ! p))" by force
    then show ?thesis by auto
  qed
  from assms(1) show ?thesis
  proof (cases rule: fix_page_cases [where t = t and k = k and x = x])
    case (hit p)
    with assms(3) show ?thesis by simp
  next
    case free
    with assms(2) show ?thesis by simp
  next
    case (fifo i p)
    with pinned show ?thesis by blast
  next
    case (lru i p)
    with pinned show ?thesis by blast
  next
    case full
    then show ?thesis by simp
  qed
qed

theorem all_pinned_buffer_full_witness:
  "\<exists>s. run (BufferManager_new 16 3 (\<lambda>_. [])) [Fix 0 1 False, Fix 0 2 False, Fix 0 3 True] = Some s \<and>
       pool_inv s \<and> length (bufferMapping s) = unat (pageCount s) \<and>
       map_find (bufferMapping s) 99 = None \<and>
       (\<forall>e \<in> set (bufferMapping s). 0 < sint (counter (heap s ! snd e))) \<and>
       fix_page 0 99 False s = (Inl buffer_full_error, s)"
proof -
  let ?r = "run (BufferManager_new 16 3 (\<lambda>_. [])) [Fix 0 1 False, Fix 0 2 False, Fix 0 3 True]"
  have "case ?r of None \<Rightarrow> False
        | Some s \<Rightarrow> map_find (bufferMapping s) 99 = None \<and>
            length (bufferMapping s) = 3 \<and> pageCount s = 3 \<and>
            list_all (\<lambda>e. 0 < sint (counter (heap s ! snd e))) (bufferMapping s)"
    by code_simp
  then obtain s where s: "?r = Some s" and m: "map_find (bufferMapping s) 99 = None"
    and l: "length (bufferMapping s) = 3" and pc: "pageCount s = 3"
    and p: "list_all (\<lambda>e. 0 < sint (counter (heap s ! snd e))) (bufferMapping s)"
    by (cases ?r) simp_all
  have inv: "pool_inv s" using pool_inv_new s by (rule pool_inv_run)
  have full: "length (bufferMapping s) = unat (pageCount s)" unfolding l pc by simp
  have pinned: "\<forall>e \<in> set (bufferMapping s). 0 < sint (counter (heap s ! snd e))"
    using p by (simp only: list_all_iff)
  from all_pinned_buffer_full [OF inv full m pinned, of 0 False] s inv full m pinned
  show ?thesis by blast
qed







text \<open>
  C9. On every miss path of \<open>fix_page\<close> that returns a frame (a free slot, a FIFO victim,
  an LRU victim) the new page id is appended to the tail of the FIFO queue, occurs there
  once, and is not in the LRU queue.
\<close>

theorem miss_appends_to_fifo:
  assumes "pool_inv s" "map_find (bufferMapping s) k = None" "fix_page t k x s = (Inr a, s')"
  shows "a = length (heap s) \<and> last (fifoQueue s') = k \<and> count_list (fifoQueue s') k = 1 \<and>
         k \<notin> set (lruQueue s') \<and>
         ((word_of_nat (length (bufferMapping s)) \<noteq> pageCount s \<and>
             fifoQueue s' = fifoQueue s @ [k] \<and> lruQueue s' = lruQueue s) \<or>
          (\<exists>i<length (fifoQueue s). pin_count s (fifoQueue s ! i) = Some 0 \<and>
             fifoQueue s' = erase_at i (fifoQueue s) @ [k] \<and> lruQueue s' = lruQueue s) \<or>
          (\<exists>i<length (lruQueue s). pin_count s (lruQueue s ! i) = Some 0 \<and>
             fifoQueue s' = fifoQueue s @ [k] \<and> lruQueue s' = erase_at i (lruQueue s)))"
proof -
  have nk: "k \<notin> set (fifoQueue s)" "k \<notin> set (lruQueue s)"
    using assms(1,2) by (auto simp: pool_inv_def map_find_None)
  have shape: "a = length (heap s) \<and>
         ((word_of_nat (length (bufferMapping s)) \<noteq> pageCount s \<and>
             fifoQueue s' = fifoQueue s @ [k] \<and> lruQueue s' = lruQueue s) \<or>
          (\<exists>i<length (fifoQueue s). pin_count s (fifoQueue s ! i) = Some 0 \<and>
             fifoQueue s' = erase_at i (fifoQueue s) @ [k] \<and> lruQueue s' = lruQueue s) \<or>
          (\<exists>i<length (lruQueue s). pin_count s (lruQueue s ! i) = Some 0 \<and>
             fifoQueue s' = fifoQueue s @ [k] \<and> lruQueue s' = erase_at i (lruQueue s)))"
    using assms(1)
  proof (cases rule: fix_page_cases [where t = t and k = k and x = x])
    case (hit p)
    with assms(2) show ?thesis by simp
  next
    case free
    with assms(3) addNewPage_result(1,4,5) [of t k x s] show ?thesis by simp
  next
    case (fifo i p)
    have "i < length (if True then fifoQueue (writeDisk p s) else lruQueue (writeDisk p s))"
      using fifo(3) by simp
    moreover have "removePage t k (int i) x True (writeDisk p s) = (Inr a, s')"
      using fifo(6) assms(3) by simp
    ultimately have "a = length (heap s)" "fifoQueue s' = erase_at i (fifoQueue s) @ [k]"
      "lruQueue s' = lruQueue s"
      using removePage_queues(1,4,5) [of i True "writeDisk p s" t k x] by simp_all
    with fifo(3) pin_count_Some [OF fifo(4,5)] show ?thesis by blast
  next
    case (lru i p)
    have "i < length (if False then fifoQueue (writeDisk p s) else lruQueue (writeDisk p s))"
      using lru(3) by simp
    moreover have "removePage t k (int i) x False (writeDisk p s) = (Inr a, s')"
      using lru(6) assms(3) by simp
    ultimately have "a = length (heap s)" "fifoQueue s' = fifoQueue s @ [k]"
      "lruQueue s' = erase_at i (lruQueue s)"
      using removePage_queues(1,4,5) [of i False "writeDisk p s" t k x] by simp_all
    with lru(3) pin_count_Some [OF lru(4,5)] show ?thesis by blast
  next
    case full
    with assms(3) show ?thesis by simp
  qed
  have e: "k \<notin> set (erase_at i (fifoQueue s))" "k \<notin> set (erase_at i (lruQueue s))" for i
    using nk set_erase_at [of i "fifoQueue s"] set_erase_at [of i "lruQueue s"] by auto
  from shape nk e have "k \<notin> set (lruQueue s')" by auto
  moreover from shape have "last (fifoQueue s') = k" by auto
  moreover from shape nk e have "count_list (fifoQueue s') k = 1"
    by (auto simp: count_list_0_iff)
  ultimately show ?thesis using shape by blast
qed

theorem miss_appends_to_fifo_witness:
  "\<exists>s a s'. run (BufferManager_new 16 3 (\<lambda>_. []))
          [Fix 0 1 False, Fix 0 2 False, Fix 0 3 False, Unfix 0 1 False, Fix 0 2 False, Unfix 0 1 False]
          = Some s \<and>
       pool_inv s \<and> map_find (bufferMapping s) 9 = None \<and>
       fix_page 0 9 False s = (Inr a, s') \<and>
       fifoQueue s = [1, 3] \<and> lruQueue s = [2] \<and> fifoQueue s' = [1, 3, 9] \<and> lruQueue s' = [] \<and>
       a = length (heap s) \<and> last (fifoQueue s') = 9 \<and> count_list (fifoQueue s') 9 = 1 \<and>
       9 \<notin> set (lruQueue s')"
proof -
  let ?r = "run (BufferManager_new 16 3 (\<lambda>_. []))
          [Fix 0 1 False, Fix 0 2 False, Fix 0 3 False, Unfix 0 1 False, Fix 0 2 False, Unfix 0 1 False]"
  have "case ?r of None \<Rightarrow> False
        | Some s \<Rightarrow> map_find (bufferMapping s) 9 = None \<and>
            fifoQueue s = [1, 3] \<and> lruQueue s = [2] \<and>
            (case fix_page 0 9 False s of
               (Inl e, s') \<Rightarrow> False
             | (Inr a, s') \<Rightarrow> fifoQueue s' = [1, 3, 9] \<and> lruQueue s' = [])"
    by code_simp
  then obtain s where s: "?r = Some s" and m: "map_find (bufferMapping s) 9 = None"
    and q: "fifoQueue s = [1, 3]" "lruQueue s = [2]"
    and c: "case fix_page 0 9 False s of
               (Inl e, s') \<Rightarrow> False
             | (Inr a, s') \<Rightarrow> fifoQueue s' = [1, 3, 9] \<and> lruQueue s' = []"
    by (cases ?r) simp_all
  from c obtain a s' where fp: "fix_page 0 9 False s = (Inr a, s')"
    and q': "fifoQueue s' = [1, 3, 9]" "lruQueue s' = []"
    by (auto split: prod.splits sum.splits)
  have inv: "pool_inv s" using pool_inv_new s by (rule pool_inv_run)
  from miss_appends_to_fifo [OF inv m fp]
  have "a = length (heap s) \<and> last (fifoQueue s') = 9 \<and> count_list (fifoQueue s') 9 = 1 \<and>
       9 \<notin> set (lruQueue s')" by blast
  with s inv m fp q q' show ?thesis by blast
qed

text \<open>
  C10, as stated, fails: besides the pin count and the queue position, a hit changes the
  lock of the frame and the lock mode recorded in the frame. Page 1 is fixed exclusively
  and unfixed; the hit that fixes it in shared mode makes thread 0 a shared owner of the
  frame's mutex and sets \<open>mIsExclusive\<close> from true to false.
\<close>

theorem hit_changes_lock_counterexample:
  "map_option modes (scenario [Fix 0 1 True, Unfix 0 0 False]) = Some [True] \<and>
   map_option locks (scenario [Fix 0 1 True, Unfix 0 0 False]) = Some [Mutex None []] \<and>
   map_option modes (scenario [Fix 0 1 True, Unfix 0 0 False, Fix 0 1 False]) = Some [False] \<and>
   map_option locks (scenario [Fix 0 1 True, Unfix 0 0 False, Fix 0 1 False]) =
     Some [Mutex None [0]]"
  by code_simp

text \<open>
  C10 (amended). A \<open>fix_page\<close> of a resident page id performs no disk I/O (the trace and
  the disk are unchanged) and leaves the data bytes and the dirty flag of the frame
  unchanged. It increments the pin count of the frame and moves the page id to the tail of
  the LRU queue (out of the FIFO queue if it was there); and, if the lock is granted and
  the call returns the frame, it makes the calling thread an owner of the frame's lock
  and records the requested mode in the frame. Nothing else in the pool changes.
\<close>

theorem hit_effect:
  assumes "pool_inv s" "map_find (bufferMapping s) k = Some p"
  shows "(let f = heap s ! p; granted = (fst (fix_page t k x s) = Inr p) in
     snd (fix_page t k x s) =
       s\<lparr>fifoQueue := remove1 k (fifoQueue s),
         lruQueue := remove1 k (lruQueue s) @ [k],
         heap := (heap s)[p := f
           \<lparr>counter := counter f + 1,
            mIsExclusive := (if granted then x else mIsExclusive f),
            pageMutex :=
              (if granted
               then (if x then Mutex (Some t) [] else Mutex None (readers (pageMutex f) @ [t]))
               else pageMutex f)\<rparr>]\<rparr> \<and>
     io_log (snd (fix_page t k x s)) = io_log s \<and>
     disk (snd (fix_page t k x s)) = disk s \<and>
     data (heap (snd (fix_page t k x s)) ! p) = data f \<and>
     mIsDirty (heap (snd (fix_page t k x s)) ! p) = mIsDirty f)"
proof -
  let ?f = "heap s ! p"
  have fp: "fix_page t k x s = updateExistingPage t k x s"
    using assms(2) by (simp add: fix_page_def)
  note r = updateExistingPage_result [OF assms, of t x, folded fp]
  note v = map_find_valid [OF assms]
  have d: "distinct (fifoQueue s @ lruQueue s)" using assms(1) by (simp add: pool_inv_def)
  have g: "(fst (fix_page t k x s) = Inr p) = (fst (lockPage t x ?f) = Inr ())"
    unfolding r(1) by (simp split: sum.splits)
  have F: "(snd (lockPage t x ?f))\<lparr>counter := counter ?f + 1\<rparr> =
      ?f\<lparr>counter := counter ?f + 1,
         mIsExclusive := (if fst (fix_page t k x s) = Inr p then x else mIsExclusive ?f),
         pageMutex :=
           (if fst (fix_page t k x s) = Inr p
            then (if x then Mutex (Some t) [] else Mutex None (readers (pageMutex ?f) @ [t]))
            else pageMutex ?f)\<rparr>"
    unfolding g
    by (rule BufferFrame.equality) (simp_all add: lockPage_result(2,3))
  have q: "fifoQueue (snd (fix_page t k x s)) = remove1 k (fifoQueue s)"
    "lruQueue (snd (fix_page t k x s)) = remove1 k (lruQueue s) @ [k]"
  proof -
    show "fifoQueue (snd (fix_page t k x s)) = remove1 k (fifoQueue s)"
    proof (cases "k \<in> set (lruQueue s)")
      case True
      with d have "k \<notin> set (fifoQueue s)" by auto
      with True r(8) show ?thesis by (simp add: remove1_idem)
    next
      case False
      with r(8) show ?thesis by simp
    qed
    show "lruQueue (snd (fix_page t k x s)) = remove1 k (lruQueue s) @ [k]"
      using r(9) by (simp add: remove1_idem)
  qed
  have "snd (fix_page t k x s) =
       s\<lparr>fifoQueue := remove1 k (fifoQueue s),
         lruQueue := remove1 k (lruQueue s) @ [k],
         heap := (heap s)[p := (snd (lockPage t x ?f))\<lparr>counter := counter ?f + 1\<rparr>]\<rparr>"
    by (rule BufferManager.equality) (simp_all add: r(2-7) q)
  moreover have "data (heap (snd (fix_page t k x s)) ! p) = data ?f"
    "mIsDirty (heap (snd (fix_page t k x s)) ! p) = mIsDirty ?f"
    using r(2) v(1) by simp_all
  ultimately show ?thesis
    unfolding Let_def F [symmetric] using r(4,5) by simp
qed

theorem hit_effect_witness:
  "\<exists>s. scenario [Fix 0 1 True, Unfix 0 0 True] = Some s \<and>
       pool_inv s \<and> map_find (bufferMapping s) 1 = Some 0 \<and>
       mIsDirty (heap s ! 0) \<and> mIsExclusive (heap s ! 0) \<and>
       fifoQueue s = [1] \<and> lruQueue s = [] \<and>
       fst (fix_page 0 1 False s) = Inr 0 \<and>
       snd (fix_page 0 1 False s) =
         s\<lparr>fifoQueue := [], lruQueue := [1],
           heap := (heap s)[0 := (heap s ! 0)
             \<lparr>counter := 1, mIsExclusive := False, pageMutex := Mutex None [0]\<rparr>]\<rparr> \<and>
       io_log (snd (fix_page 0 1 False s)) = io_log s \<and>
       disk (snd (fix_page 0 1 False s)) = disk s \<and>
       data (heap (snd (fix_page 0 1 False s)) ! 0) = data (heap s ! 0) \<and>
       mIsDirty (heap (snd (fix_page 0 1 False s)) ! 0) = mIsDirty (heap s ! 0)"
proof -
  let ?r = "scenario [Fix 0 1 True, Unfix 0 0 True]"
  have "case ?r of None \<Rightarrow> False
        | Some s \<Rightarrow> map_find (bufferMapping s) 1 = Some 0 \<and> mIsDirty (heap s ! 0) \<and>
            mIsExclusive (heap s ! 0) \<and> fifoQueue s = [1] \<and> lruQueue s = [] \<and>
            counter (heap s ! 0) = 0 \<and> pageMutex (heap s ! 0) = Mutex None [] \<and>
            fst (fix_page 0 1 False s) = Inr 0"
    by code_simp
  then obtain s where s: "?r = Some s" and m: "map_find (bufferMapping s) 1 = Some 0"
    and d: "mIsDirty (heap s ! 0)" and x: "mIsExclusive (heap s ! 0)"
    and q: "fifoQueue s = [1]" "lruQueue s = []"
    and c: "counter (heap s ! 0) = 0" and l: "pageMutex (heap s ! 0) = Mutex None []"
    and g: "fst (fix_page 0 1 False s) = Inr 0"
    by (cases ?r) simp_all
  have inv: "pool_inv s"
    using pool_inv_new s unfolding scenario_def by (rule pool_inv_run)
  note T = hit_effect [OF inv m, of 0 False, unfolded Let_def]
  have a: "snd (fix_page 0 1 False s) =
         s\<lparr>fifoQueue := [], lruQueue := [1],
           heap := (heap s)[0 := (heap s ! 0)
             \<lparr>counter := 1, mIsExclusive := False, pageMutex := Mutex None [0]\<rparr>]\<rparr>"
    using T [THEN conjunct1] unfolding g q c l by simp
  have b: "io_log (snd (fix_page 0 1 False s)) = io_log s \<and>
       disk (snd (fix_page 0 1 False s)) = disk s \<and>
       data (heap (snd (fix_page 0 1 False s)) ! 0) = data (heap s ! 0) \<and>
       mIsDirty (heap (snd (fix_page 0 1 False s)) ! 0) = mIsDirty (heap s ! 0)"
    by (rule T [THEN conjunct2])
  from s inv m d x q g a b show ?thesis by blast
qed

end
